theory Spec2Isabelle
  imports Main "HOL-Library.Sublist" "HOL-Library.AList" "HOL-Library.Extended_Nat"
begin

section \<open>Strings and numbers of the runtime\<close>

text \<open>
  File names, file contents and error texts are \<^typ>\<open>string\<close>s. The source holds
  every number in a JavaScript number, a double. A number read from a text by \<open>parseInt\<close>
  is rounded to the nearest double, which is the number itself below \<open>2 ^ 53\<close>, and
  \<open>Infinity\<close> from \<open>2 ^ 1024 - 2 ^ 970\<close> on: such numbers are
  \<^typ>\<open>enat\<close>s. The counters of the two loops and the page numbers made from them
  stay at or below \<open>totalPages + 1\<close>; they are natural numbers, which is what the
  doubles of the source hold for a document of fewer than \<open>2 ^ 53\<close> pages.
\<close>

definition is_digit :: "char \<Rightarrow> bool" where
  \<comment> \<open>the regular expression class \<open>\d\<close>\<close>
  "is_digit c = (c \<in> set ''0123456789'')"

definition digit_val :: "char \<Rightarrow> nat" where
  "digit_val c = of_char c - 48"

definition decimal :: "string \<Rightarrow> nat" where
  \<comment> \<open>the integer that a string of decimal digits denotes\<close>
  "decimal ds = foldl (\<lambda>n c. 10 * n + digit_val c) 0 ds"

fun bitlen :: "nat \<Rightarrow> nat" where
  \<comment> \<open>the number of binary digits\<close>
  "bitlen n = (if n = 0 then 0 else Suc (bitlen (n div 2)))"

declare bitlen.simps [simp del]

definition to_double :: "nat \<Rightarrow> enat" where
  \<comment> \<open>the double nearest to an integer: the bits beyond the 53 of the significand are
      rounded off, a tie goes to the even significand, and a result of more than 1024 bits,
      which is \<open>2 ^ 1024\<close> or more, is \<open>Infinity\<close>\<close>
  "to_double n =
     (let e = bitlen n - 53;
          q = n div 2 ^ e;
          r = n mod 2 ^ e;
          m = (if 2 ^ e < 2 * r \<or> (2 * r = 2 ^ e \<and> odd q) then q + 1 else q)
      in if bitlen m + e \<le> 1024 then enat (m * 2 ^ e) else \<infinity>)"

definition parseInt :: "string \<Rightarrow> enat" where
  \<comment> \<open>\<open>parseInt(ds, 10)\<close> on a string of decimal digits, as V8 computes it\<close>
  "parseInt ds = to_double (decimal ds)"

fun show_nat :: "nat \<Rightarrow> string" where
  \<comment> \<open>a page number inside a template literal: its decimal digits\<close>
  "show_nat n =
     (if n < 10 then [''0123456789'' ! n]
      else show_nat (n div 10) @ [''0123456789'' ! (n mod 10)])"

declare show_nat.simps [simp del]

fun str_includes :: "string \<Rightarrow> string \<Rightarrow> bool" where
  \<comment> \<open>\<open>s.includes(t)\<close>: \<open>t\<close> occurs in \<open>s\<close> at some position\<close>
  "str_includes [] t = (t = [])"
| "str_includes (c # cs) t = (prefix t (c # cs) \<or> str_includes cs t)"

fun last_occurrence :: "string \<Rightarrow> string \<Rightarrow> nat option" where
  \<comment> \<open>the greatest position at which \<open>t\<close> occurs in \<open>s\<close>\<close>
  "last_occurrence [] t = (if t = [] then Some 0 else None)"
| "last_occurrence (c # cs) t =
     (case last_occurrence cs t of
        Some i \<Rightarrow> Some (Suc i)
      | None \<Rightarrow> if prefix t (c # cs) then Some 0 else None)"

definition lastIndexOf :: "string \<Rightarrow> string \<Rightarrow> int" where
  \<comment> \<open>\<open>s.lastIndexOf(t)\<close>, \<open>-1\<close> when \<open>t\<close> does not occur\<close>
  "lastIndexOf s t = (case last_occurrence s t of None \<Rightarrow> - 1 | Some i \<Rightarrow> int i)"

definition slice_index :: "string \<Rightarrow> int \<Rightarrow> nat" where
  \<comment> \<open>how \<open>slice\<close> reads an index: a negative one counts from the end, and the
      result is clamped to the string\<close>
  "slice_index s i = (if i < 0 then nat (int (length s) + i) else min (nat i) (length s))"

definition slice :: "string \<Rightarrow> int \<Rightarrow> int \<Rightarrow> string" where
  \<comment> \<open>\<open>s.slice(i, j)\<close>\<close>
  "slice s i j = take (slice_index s j - slice_index s i) (drop (slice_index s i) s)"

definition slice_from :: "string \<Rightarrow> int \<Rightarrow> string" where
  \<comment> \<open>\<open>s.slice(i)\<close>\<close>
  "slice_from s i = drop (slice_index s i) s"

section \<open>Resume tracker\<close>

definition is_page_tex :: "string \<Rightarrow> bool" where
  \<comment> \<open>\<open>/^page\d+\.tex$/.test(f)\<close>\<close>
  "is_page_tex f =
     (take 4 f = ''page'' \<and>
      takeWhile is_digit (drop 4 f) \<noteq> [] \<and>
      dropWhile is_digit (drop 4 f) = ''.tex'')"

definition match_digits :: "string \<Rightarrow> string option" where
  \<comment> \<open>\<open>f.match(/\d+/)\<close>: the first maximal run of digits, \<open>None\<close> for \<open>null\<close>\<close>
  "match_digits f =
     (let r = dropWhile (\<lambda>c. \<not> is_digit c) f
      in if r = [] then None else Some (takeWhile is_digit r))"

definition page_number :: "string \<Rightarrow> enat option" where
  \<comment> \<open>\<open>parseInt(f.match(/\d+/)![0], 10)\<close>; \<open>None\<close> where the match is \<open>null\<close>
      and reading its element \<open>0\<close> throws\<close>
  "page_number f = map_option parseInt (match_digits f)"

fun Math_max :: "enat list \<Rightarrow> enat" where
  \<comment> \<open>\<open>Math.max(...xs)\<close>; on no arguments JavaScript gives \<open>-Infinity\<close>, which
      the caller excludes before the call\<close>
  "Math_max [] = 0"
| "Math_max (x # xs) = fold max xs x"

type_synonym error = string
  \<comment> \<open>a thrown value, as the text its \<open>toString()\<close> gives\<close>

definition new_Error :: "string \<Rightarrow> error" where
  "new_Error msg = ''Error: '' @ msg"

definition getLastProcessedPageByTex :: "string list \<Rightarrow> error + enat" where
  \<comment> \<open>the argument is what \<open>fs.readdir(OUTPUT_DIR)\<close> lists, in the order it lists it\<close>
  "getLastProcessedPageByTex files =
     (let pageTexFiles = filter is_page_tex files in
      if length pageTexFiles = 0 then Inr 0
      else
        (case those (map page_number pageTexFiles) of
           None \<Rightarrow>
             Inl (''TypeError: Cannot read properties of null (reading '' @
                  [CHR 0x27, CHR ''0'', CHR 0x27] @ '')'')
         | Some pageNumbers \<Rightarrow> Inr (Math_max pageNumbers)))"

definition pageTexName :: "nat \<Rightarrow> string" where
  \<comment> \<open>\<open>`page${pageNum}.tex`\<close>, the file name of a page's fragment in the
      output directory\<close>
  "pageTexName pageNum = ''page'' @ show_nat pageNum @ ''.tex''"

section \<open>The output directory and the trace of a run\<close>

text \<open>
  The output directory is an association list from file names to contents, in the order
  \<open>fs.readdir\<close> lists them. The master document \<open>main.tex\<close> and the page
  fragments \<open>page<n>.tex\<close> live there, and so do the PNG files of the converter
  (\<open>savePath: OUTPUT_DIR\<close>, \<open>format: "png"\<close>).

  What a run does besides writing files is recorded as a list of events: the console
  lines of the driver, the calls of the converter, the waits, and the calls of
  \<open>sendPushoverNotification\<close>.
\<close>

datatype event =
    Begin nat              \<comment> \<open>\<open>Beginne Verarbeitung von Seite ...\<close>\<close>
  | Attempt nat nat        \<comment> \<open>the \<open>try\<close> block is entered for a page, with the attempt counter\<close>
  | Convert nat            \<comment> \<open>\<open>converter(pageIdx)\<close> is called\<close>
  | Sleep enat             \<comment> \<open>\<open>setTimeout(resolve, seconds * 1000)\<close> is awaited\<close>
  | Failed nat nat error   \<comment> \<open>\<open>Fehler bei der Verarbeitung von Seite ..., Versuch ... von ...\<close>\<close>
  | Recorded nat           \<comment> \<open>\<open>Seite ... erfolgreich verarbeitet und in main.tex inkludiert.\<close>\<close>
  | Notify string          \<comment> \<open>\<open>sendPushoverNotification(message)\<close> is called\<close>

record world =
  outputDir :: "(string \<times> string) list"
  events :: "event list"

definition log :: "event \<Rightarrow> world \<Rightarrow> world" where
  "log ev w = w\<lparr>events := events w @ [ev]\<rparr>"

definition readdir :: "world \<Rightarrow> string list" where
  "readdir w = map fst (outputDir w)"

definition readFile :: "string \<Rightarrow> world \<Rightarrow> string option" where
  \<comment> \<open>\<open>None\<close>: the file does not exist and \<open>fs.readFile\<close> throws\<close>
  "readFile name w = map_of (outputDir w) name"

definition writeFile :: "string \<Rightarrow> string \<Rightarrow> world \<Rightarrow> world" where
  "writeFile name data w = w\<lparr>outputDir := AList.update name data (outputDir w)\<rparr>"

definition appendFile :: "string \<Rightarrow> string \<Rightarrow> world \<Rightarrow> world" where
  "appendFile name data w =
     writeFile name ((case readFile name w of None \<Rightarrow> [] | Some old \<Rightarrow> old) @ data) w"

definition MAIN_TEX :: string where
  \<comment> \<open>\<open>MAIN_TEX_PATH\<close>, as a name inside the output directory\<close>
  "MAIN_TEX = ''main.tex''"

definition end_document :: string where
  \<comment> \<open>the closing marker, a backslash and \<open>end{document}\<close>\<close>
  "end_document = CHR 0x5C # ''end{document}''"

definition initialContent :: string where
  \<comment> \<open>the template of \<open>setupWorkspace\<close>; the two umlauts are their UTF-8 bytes\<close>
  "initialContent =
     CHR 0x5C # ''documentclass[12pt, a4paper]{article}\<newline>'' @
     CHR 0x5C # ''usepackage[utf8]{inputenc}\<newline>'' @
     CHR 0x5C # ''usepackage{fontspec} % F'' @ [CHR 0xC3, CHR 0xBC] @
       ''r die Verwendung gotischer Schriftarten (falls n'' @ [CHR 0xC3, CHR 0xB6] @
       ''tig)\<newline>'' @
     CHR 0x5C # ''usepackage{geometry}\<newline>'' @
     CHR 0x5C # ''geometry{a4paper, margin=1in}\<newline>'' @
     ''\<newline>'' @
     CHR 0x5C # ''title{Christliche Dogmatik - Band 1}\<newline>'' @
     CHR 0x5C # ''author{Francis Pieper}\<newline>'' @
     CHR 0x5C # ''date{}\<newline>'' @
     ''\<newline>'' @
     CHR 0x5C # ''begin{document}\<newline>'' @
     CHR 0x5C # ''maketitle\<newline>'' @
     ''\<newline>'' @
     ''% Die einzelnen Seiten werden hier inkludiert\<newline>''"

definition setupWorkspace :: "world \<Rightarrow> world" where
  \<comment> \<open>\<open>fs.access\<close> throws when \<open>main.tex\<close> is missing; the \<open>catch\<close> writes the template\<close>
  "setupWorkspace w =
     (case readFile MAIN_TEX w of
        Some _ \<Rightarrow> w
      | None \<Rightarrow> writeFile MAIN_TEX initialContent w)"

section \<open>The recognition call\<close>

datatype json =
    JNull | JBool bool | JNumber int | JString string
  | JArray "json list" | JObject "(string \<times> json) list"

datatype gen_outcome =
    GenThrows error           \<comment> \<open>\<open>generateContent\<close> throws\<close>
  | GenResult "string option" \<comment> \<open>it returns; \<open>result.text\<close> is a string or \<open>undefined\<close>\<close>

datatype convert_outcome =
    ConvertThrows error  \<comment> \<open>the converter, or the read of its file, throws\<close>
  | NoPath               \<comment> \<open>the result has no \<open>path\<close>\<close>
  | Png string string    \<comment> \<open>the stem of the PNG file written, and the bytes read from it\<close>

text \<open>
  What is fixed during a run. The last two fields are functions of the Node.js runtime
  that \<open>fs.writeFile\<close> uses on data that is not a string.
\<close>

record config =
  totalPages :: nat                          \<comment> \<open>\<open>pdfDoc.getPageCount()\<close>\<close>
  GEMINI_API_KEY :: bool                     \<comment> \<open>whether the variable is set\<close>
  JSON_parse :: "string \<Rightarrow> json option"  \<comment> \<open>\<open>JSON.parse\<close>; \<open>None\<close> where it throws\<close>
  received :: "json \<Rightarrow> string"
    \<comment> \<open>how the message of an \<open>ERR_INVALID_ARG_TYPE\<close> error describes the value
        it rejects, as in \<open>type number (5)\<close> or \<open>an instance of Object\<close>\<close>
  Buffer_from :: "json \<Rightarrow> error + string"
    \<comment> \<open>\<open>Buffer.from(chunk, 'utf8')\<close> on a chunk that is not a string: the bytes,
        or the error thrown\<close>

text \<open>What the external collaborators answer during one attempt.\<close>

record attempt_env =
  converter :: "nat \<Rightarrow> convert_outcome"
  generateContent :: "string list \<Rightarrow> gen_outcome"

fun content_of :: "json \<Rightarrow> json" where
  \<comment> \<open>\<open>parsedJson?.content ?? ""\<close>\<close>
  "content_of (JObject kvs) =
     (case map_of kvs ''content'' of
        None \<Rightarrow> JString []
      | Some JNull \<Rightarrow> JString []
      | Some v \<Rightarrow> v)"
| "content_of _ = JString []"

definition imageParts :: "string option list \<Rightarrow> string list" where
  \<comment> \<open>\<open>pageImageBuffers.map(...).filter(Boolean)\<close>\<close>
  "imageParts pageImageBuffers = map the (filter (\<lambda>buf. buf \<noteq> None) pageImageBuffers)"

definition parseResponse :: "config \<Rightarrow> string option \<Rightarrow> error + json" where
  \<comment> \<open>the inner \<open>try\<close> of \<open>processPageWithGemini\<close> with its \<open>catch\<close>\<close>
  "parseResponse cfg responseText =
     (case (case responseText of
              None \<Rightarrow> Inl (new_Error ''Antwort war kein String.'')
            | Some t \<Rightarrow>
                (case JSON_parse cfg t of
                   None \<Rightarrow> Inl ''SyntaxError''
                 | Some parsedJson \<Rightarrow> Inr (content_of parsedJson)))
      of
        Inl _ \<Rightarrow> Inl (new_Error ''Antwort konnte nicht als JSON-Objekt interpretiert werden.'')
      | Inr v \<Rightarrow> Inr v)"

definition processPageWithGemini ::
  "config \<Rightarrow> attempt_env \<Rightarrow> string option list \<Rightarrow> error + json" where
  "processPageWithGemini cfg e pageImageBuffers =
     (if \<not> GEMINI_API_KEY cfg
      then Inl (new_Error ''GEMINI_API_KEY Umgebungsvariable nicht gesetzt.'')
      else
        (case (case generateContent e (imageParts pageImageBuffers) of
                 GenThrows err \<Rightarrow> Inl err
               | GenResult responseText \<Rightarrow> parseResponse cfg responseText)
         of
           Inl _ \<Rightarrow> Inl (new_Error ''API-Anfrage fehlgeschlagen.'')
         | Inr v \<Rightarrow> Inr v))"

section \<open>The driver\<close>

definition MAX_RETRIES :: nat where
  "MAX_RETRIES = 3"

definition isQuotaError :: "error \<Rightarrow> bool" where
  "isQuotaError errStr =
     (str_includes errStr ''ApiError'' \<and>
      str_includes errStr ''RESOURCE_EXHAUSTED'' \<and>
      str_includes errStr ''retryDelay'')"

definition retryDelay_key :: string where
  \<comment> \<open>\<open>"retryDelay":"\<close>, with its three double quotes\<close>
  "retryDelay_key = CHR 0x22 # ''retryDelay'' @ [CHR 0x22, CHR '':'', CHR 0x22]"

definition retryDelay_at :: "string \<Rightarrow> string option" where
  \<comment> \<open>\<open>/"retryDelay":"(\d+)s"/\<close> matched at the head of a string: the group\<close>
  "retryDelay_at s =
     (if prefix retryDelay_key s
      then
        (let r = drop (length retryDelay_key) s; ds = takeWhile is_digit r
         in if ds \<noteq> [] \<and> prefix [CHR ''s'', CHR 0x22] (dropWhile is_digit r)
            then Some ds else None)
      else None)"

fun match_retryDelay :: "string \<Rightarrow> string option" where
  \<comment> \<open>\<open>errStr.match(/"retryDelay":"(\d+)s"/)\<close>: the group of the leftmost match\<close>
  "match_retryDelay [] = None"
| "match_retryDelay (c # cs) =
     (case retryDelay_at (c # cs) of
        Some ds \<Rightarrow> Some ds
      | None \<Rightarrow> match_retryDelay cs)"

definition retrySeconds :: "error \<Rightarrow> enat" where
  "retrySeconds errStr =
     (case match_retryDelay errStr of Some ds \<Rightarrow> parseInt ds | None \<Rightarrow> 20)"

definition getImageBuffer ::
  "config \<Rightarrow> attempt_env \<Rightarrow> nat \<Rightarrow> world \<Rightarrow> (error + string option) \<times> world" where
  "getImageBuffer cfg e pageIdx w =
     (if pageIdx < 1 \<or> pageIdx > totalPages cfg then (Inr None, w)
      else
        (case converter e pageIdx of
           ConvertThrows err \<Rightarrow> (Inl err, log (Convert pageIdx) w)
         | NoPath \<Rightarrow> (Inr None, log (Convert pageIdx) w)
         | Png stem buf \<Rightarrow>
             (Inr (if length buf > 0 then Some buf else None),
              writeFile (stem @ ''.png'') buf (log (Convert pageIdx) w))))"

definition includeLine :: "nat \<Rightarrow> string" where
  "includeLine pageNum = ''\<newline>'' @ CHR 0x5C # ''include{page'' @ show_nat pageNum @ ''}''"

definition updateMainTex :: "nat \<Rightarrow> string \<Rightarrow> string" where
  \<comment> \<open>the new text of \<open>main.tex\<close> after a page is included\<close>
  "updateMainTex pageNum mainTexContent =
     (if str_includes mainTexContent end_document
      then
        (let idx = lastIndexOf mainTexContent end_document
         in slice mainTexContent 0 idx @ includeLine pageNum @ ''\<newline>'' @
            slice_from mainTexContent idx)
      else mainTexContent @ includeLine pageNum)"

definition invalid_data :: "config \<Rightarrow> json \<Rightarrow> error" where
  \<comment> \<open>the error of \<open>fs.writeFile\<close> for data that is neither a string nor iterable\<close>
  "invalid_data cfg data =
     ''TypeError [ERR_INVALID_ARG_TYPE]: The '' @ CHR 0x22 # ''data'' @ CHR 0x22 #
     '' argument must be of type string or an instance of Buffer, TypedArray, or DataView.'' @
     '' Received '' @ received cfg data"

definition chunk_bytes :: "config \<Rightarrow> json \<Rightarrow> error + string" where
  \<comment> \<open>the bytes of one element of iterable data\<close>
  "chunk_bytes cfg chunk = (case chunk of JString s \<Rightarrow> Inr s | _ \<Rightarrow> Buffer_from cfg chunk)"

fun write_chunks :: "config \<Rightarrow> json list \<Rightarrow> string \<Rightarrow> string \<times> error option" where
  \<comment> \<open>the elements are written one after the other; the result is what the file holds
      at the end, and the error that stopped the writing, if any\<close>
  "write_chunks cfg [] written = (written, None)"
| "write_chunks cfg (chunk # chunks) written =
     (case chunk_bytes cfg chunk of
        Inl err \<Rightarrow> (written, Some err)
      | Inr bytes \<Rightarrow> write_chunks cfg chunks (written @ bytes))"

definition fs_writeFile ::
  "config \<Rightarrow> string \<Rightarrow> json \<Rightarrow> world \<Rightarrow> error option \<times> world" where
  \<comment> \<open>\<open>fs.writeFile(name, data)\<close> of \<open>fs/promises\<close> on a value that came out of
      \<open>JSON.parse\<close>: a string is written; an array is iterable, so the file is opened,
      which empties it, and the elements are written; any other value is rejected before the
      file is opened\<close>
  "fs_writeFile cfg name data w =
     (case data of
        JString text \<Rightarrow> (None, writeFile name text w)
      | JArray chunks \<Rightarrow>
          (case write_chunks cfg chunks [] of
             (written, err) \<Rightarrow> (err, writeFile name written w))
      | _ \<Rightarrow> (Some (invalid_data cfg data), w))"

definition ENOENT_main_tex :: error where
  \<comment> \<open>the error of \<open>fs.readFile(MAIN_TEX_PATH, "utf-8")\<close> when the file is missing\<close>
  "ENOENT_main_tex =
     ''Error: ENOENT: no such file or directory, open '' @
     CHR 0x27 # ''output/main.tex'' @ [CHR 0x27]"

definition recordPage :: "config \<Rightarrow> nat \<Rightarrow> json \<Rightarrow> world \<Rightarrow> (error + unit) \<times> world" where
  \<comment> \<open>from the write of the page's fragment to the console line of success\<close>
  "recordPage cfg pageNum ocrContent w =
     (case fs_writeFile cfg (pageTexName pageNum) ocrContent w of
        (Some err, w1) \<Rightarrow> (Inl err, w1)
      | (None, w1) \<Rightarrow>
          (case readFile MAIN_TEX w1 of
             None \<Rightarrow> (Inl ENOENT_main_tex, w1)
           | Some mainTexContent \<Rightarrow>
               (Inr (),
                log (Recorded pageNum)
                  (writeFile MAIN_TEX (updateMainTex pageNum mainTexContent) w1))))"

definition contextWindow ::
  "config \<Rightarrow> attempt_env \<Rightarrow> nat \<Rightarrow> world \<Rightarrow>
   (error + string option \<times> string option \<times> string option) \<times> world" where
  \<comment> \<open>\<open>prevBuffer\<close>, \<open>currBuffer\<close> and \<open>nextBuffer\<close>, awaited in this order; a call
      that throws ends the attempt before the next call is made\<close>
  "contextWindow cfg e pageNum w =
     (case getImageBuffer cfg e (pageNum - 1) w of
        (Inl err, w1) \<Rightarrow> (Inl err, w1)
      | (Inr prevBuffer, w1) \<Rightarrow>
     (case getImageBuffer cfg e pageNum w1 of
        (Inl err, w2) \<Rightarrow> (Inl err, w2)
      | (Inr currBuffer, w2) \<Rightarrow>
     (case getImageBuffer cfg e (pageNum + 1) w2 of
        (Inl err, w3) \<Rightarrow> (Inl err, w3)
      | (Inr nextBuffer, w3) \<Rightarrow> (Inr (prevBuffer, currBuffer, nextBuffer), w3))))"

definition attemptOnce ::
  "config \<Rightarrow> attempt_env \<Rightarrow> nat \<Rightarrow> world \<Rightarrow> (error + unit) \<times> world" where
  \<comment> \<open>the body of the \<open>try\<close> block of one attempt\<close>
  "attemptOnce cfg e pageNum w =
     (case contextWindow cfg e pageNum w of
        (Inl err, w3) \<Rightarrow> (Inl err, w3)
      | (Inr (prevBuffer, currBuffer, nextBuffer), w3) \<Rightarrow>
          if currBuffer = None
          then (Inl (new_Error ''Seitenbild konnte nicht extrahiert werden.''), w3)
          else
            (case processPageWithGemini cfg e [prevBuffer, currBuffer, nextBuffer] of
               Inl err \<Rightarrow>
                 if isQuotaError err
                 then (Inl err, log (Sleep (retrySeconds err)) w3)
                 else (Inl err, w3)
             | Inr ocrContent \<Rightarrow> recordPage cfg pageNum ocrContent w3))"

fun retryLoop ::
  "config \<Rightarrow> nat \<Rightarrow> nat \<Rightarrow> attempt_env list \<Rightarrow> world \<Rightarrow>
   (bool \<times> world \<times> attempt_env list) option" where
  \<comment> \<open>the loop over \<open>attempt\<close>. The list holds the answers of the collaborators, one entry
      for each attempt; \<open>None\<close> when the list ends before the loop does. The result is
      \<open>success\<close>, the world, and the entries not used.\<close>
  "retryLoop cfg pageNum attempt [] w =
     (if attempt \<le> MAX_RETRIES then None else Some (False, w, []))"
| "retryLoop cfg pageNum attempt (e # es) w =
     (if attempt \<le> MAX_RETRIES
      then
        (case attemptOnce cfg e pageNum (log (Attempt pageNum attempt) w) of
           (Inr _, w1) \<Rightarrow> Some (True, w1, es)
         | (Inl err, w1) \<Rightarrow>
             if isQuotaError err
             then retryLoop cfg pageNum attempt es w1
             else retryLoop cfg pageNum (attempt + 1) es (log (Failed pageNum attempt err) w1))
      else Some (False, w, e # es))"

definition failMessage :: "nat \<Rightarrow> string" where
  "failMessage pageNum =
     ''Seite '' @ show_nat pageNum @ '' konnte nach '' @ show_nat MAX_RETRIES @
     '' Versuchen nicht verarbeitet werden.''"

function pageLoop :: "config \<Rightarrow> nat \<Rightarrow> attempt_env list \<Rightarrow> world \<Rightarrow> world option" where
  \<comment> \<open>the loop over \<open>i\<close>\<close>
  "pageLoop cfg i envs w =
     (if i < totalPages cfg
      then
        (case retryLoop cfg (i + 1) 1 envs (log (Begin (i + 1)) w) of
           None \<Rightarrow> None
         | Some (success, w1, envs') \<Rightarrow>
             if \<not> success then Some (log (Notify (failMessage (i + 1))) w1)
             else pageLoop cfg (i + 1) envs' w1)
      else Some w)"
  by pat_completeness auto
termination
  by (relation "measure (\<lambda>(cfg, i, envs, w). totalPages cfg - i)") auto

declare pageLoop.simps [simp del]

definition finalize :: "world \<Rightarrow> error + world" where
  \<comment> \<open>the closing of \<open>main.tex\<close> after the loop\<close>
  "finalize w =
     (case readFile MAIN_TEX w of
        None \<Rightarrow> Inl ENOENT_main_tex
      | Some finalContent \<Rightarrow>
          if \<not> str_includes finalContent end_document
          then Inr (appendFile MAIN_TEX (''\<newline>\<newline>'' @ end_document @ ''\<newline>'') w)
          else Inr w)"

definition processPdfDocument ::
  "config \<Rightarrow> attempt_env list \<Rightarrow> world \<Rightarrow> (error + world) option" where
  \<comment> \<open>\<open>None\<close>: the run is still going when the answers end; \<open>Some (Inl err)\<close>: the run
      ends by throwing \<open>err\<close>. When \<open>lastProcessedPage\<close> is \<open>Infinity\<close>, the test
      \<open>i < totalPages\<close> fails at once and the loop does nothing.\<close>
  "processPdfDocument cfg envs w =
     (let w0 = setupWorkspace w in
      case getLastProcessedPageByTex (readdir w0) of
        Inl err \<Rightarrow> Some (Inl err)
      | Inr lastProcessedPage \<Rightarrow>
          (case (case lastProcessedPage of
                   enat i \<Rightarrow> pageLoop cfg i envs w0
                 | \<infinity> \<Rightarrow> Some w0)
           of
             None \<Rightarrow> None
           | Some w1 \<Rightarrow> Some (finalize w1)))"

section \<open>Vocabulary of the properties\<close>

definition page_index :: "string \<Rightarrow> nat" where
  "page_index f = decimal (takeWhile is_digit (drop 4 f))"

definition requested :: "config \<Rightarrow> nat \<Rightarrow> nat list" where
  "requested cfg pageNum =
     (if 1 \<le> pageNum - 1 then [pageNum - 1] else []) @ [pageNum] @
     (if pageNum + 1 \<le> totalPages cfg then [pageNum + 1] else [])"

definition include_key :: string where
  "include_key = CHR 0x5C # ''include{page''"

definition ref_at :: "string \<Rightarrow> nat option" where
  "ref_at s =
     (if prefix include_key s
      then
        (let r = drop (length include_key) s; ds = takeWhile is_digit r
         in if ds \<noteq> [] \<and> prefix ''}'' (dropWhile is_digit r) then Some (decimal ds) else None)
      else None)"

fun includeRefs :: "string \<Rightarrow> nat list" where
  "includeRefs [] = []"
| "includeRefs (c # cs) = (case ref_at (c # cs) of Some n \<Rightarrow> [n] | None \<Rightarrow> []) @ includeRefs cs"

fun count_occ :: "string \<Rightarrow> string \<Rightarrow> nat" where
  "count_occ t [] = (if t = [] then 1 else 0)"
| "count_occ t (c # cs) = (if prefix t (c # cs) then 1 else 0) + count_occ t cs"

definition is_space :: "char \<Rightarrow> bool" where
  "is_space c = (c \<in> set '' \<newline>'' \<or> c = CHR 0x09 \<or> c = CHR 0x0D)"

definition marker_ok :: "string \<Rightarrow> bool" where
  "marker_ok m =
     (case last_occurrence m end_document of
        None \<Rightarrow> True
      | Some idx \<Rightarrow>
          count_occ end_document m = 1 \<and>
          list_all is_space (drop (idx + length end_document) m))"

definition boundary_char :: "char \<Rightarrow> bool" where
  "boundary_char c = (c \<notin> set (tl include_key) \<and> \<not> is_digit c \<and> c \<noteq> CHR ''}'')"

definition closing :: string where
  "closing = ''\<newline>\<newline>'' @ end_document @ ''\<newline>''"

definition docs :: "world \<Rightarrow> (string \<times> string) list" where
  "docs w = filter (\<lambda>(name, data). \<not> suffix ''.png'' name) (outputDir w)"

definition lastPage :: "world \<Rightarrow> nat" where
  "lastPage w = Max (insert 0 (page_index ` {f \<in> set (readdir w). is_page_tex f}))"

definition recorded_docs :: "nat \<Rightarrow> string \<Rightarrow> (string \<times> string) list \<Rightarrow> (string \<times> string) list" where
  "recorded_docs p text d =
     AList.update MAIN_TEX (updateMainTex p (the (map_of d MAIN_TEX)))
       (AList.update (pageTexName p) text d)"

definition touched :: "nat \<Rightarrow> (string \<times> string) list \<Rightarrow> (string \<times> string) list \<Rightarrow> bool" where
  "touched p d d' = (d' = d \<or> (\<exists>frag. d' = AList.update (pageTexName p) frag d))"

fun failures :: "nat \<Rightarrow> event list \<Rightarrow> nat list" where
  "failures p [] = []"
| "failures p (Failed q k err # evs) = (if q = p then k # failures p evs else failures p evs)"
| "failures p (ev # evs) = failures p evs"

fun attempt_event :: "nat \<Rightarrow> event \<Rightarrow> bool" where
  "attempt_event p (Attempt q k) = (q = p)"
| "attempt_event p (Convert q) = True"
| "attempt_event p (Failed q k err) = (q = p \<and> \<not> isQuotaError err)"
| "attempt_event p (Recorded q) = (q = p)"
| "attempt_event p ev = False"

fun run_event :: "nat \<Rightarrow> nat \<Rightarrow> event \<Rightarrow> bool" where
  "run_event lo hi (Begin q) = (lo < q \<and> q \<le> hi)"
| "run_event lo hi (Attempt q k) = (lo < q \<and> q \<le> hi)"
| "run_event lo hi (Failed q k err) = (lo < q \<and> q \<le> hi \<and> \<not> isQuotaError err)"
| "run_event lo hi (Recorded q) = (lo < q \<and> q \<le> hi)"
| "run_event lo hi (Convert q) = True"
| "run_event lo hi (Notify msg) = True"
| "run_event lo hi (Sleep s) = False"

definition halted :: "event list \<Rightarrow> bool" where
  "halted evs =
     ((\<forall>p err. Failed p MAX_RETRIES err \<in> set evs \<longrightarrow>
         (\<exists>pre. evs = pre @ [Failed p MAX_RETRIES err, Notify (failMessage p)])) \<and>
      (\<forall>msg. Notify msg \<in> set evs \<longrightarrow>
         (\<exists>pre p err. evs = pre @ [Failed p MAX_RETRIES err, Notify msg] \<and> msg = failMessage p)))"

definition manifest_inv :: "world \<Rightarrow> bool" where
  "manifest_inv w =
     (case readFile MAIN_TEX w of
        None \<Rightarrow> True
      | Some m \<Rightarrow>
          marker_ok m \<and> sorted_wrt (<) (includeRefs m) \<and>
          list_all (\<lambda>r. r \<le> lastPage w) (includeRefs m))"

definition closed_text :: "string \<Rightarrow> string" where
  "closed_text m = (if str_includes m end_document then m else m @ closing)"

definition empty_world :: world where
  "empty_world = \<lparr>outputDir = [], events = []\<rparr>"

definition small_world :: world where
  "small_world = \<lparr>outputDir = [(''main.tex'', ''% pages\<newline>'')], events = []\<rparr>"

definition quota_text :: error where
  "quota_text =
     ''ApiError: {'' @ CHR 0x22 # ''error'' @ CHR 0x22 # '':{'' @ CHR 0x22 # ''code'' @ CHR 0x22 # '':429,'' @
     CHR 0x22 # ''status'' @ CHR 0x22 # '':'' @ CHR 0x22 # ''RESOURCE_EXHAUSTED'' @ CHR 0x22 # '','' @
     retryDelay_key @ ''5s'' @ CHR 0x22 # ''}}''"

definition ok_text :: string where
  "ok_text = ''{'' @ CHR 0x22 # ''content'' @ CHR 0x22 # '':'' @ CHR 0x22 # ''TEXT'' @ CHR 0x22 # ''}''"

definition five_text :: string where
  "five_text = ''{'' @ CHR 0x22 # ''content'' @ CHR 0x22 # '':5}''"

definition demo_parse :: "string \<Rightarrow> json option" where
  "demo_parse s =
     (if s = ''{}'' then Some (JObject [])
      else if s = ok_text then Some (JObject [(''content'', JString ''TEXT'')])
      else if s = five_text then Some (JObject [(''content'', JNumber 5)])
      else None)"

definition demo_received :: "json \<Rightarrow> string" where
  "demo_received v =
     (case v of
        JNull \<Rightarrow> ''null''
      | JBool b \<Rightarrow> ''type boolean ('' @ (if b then ''true'' else ''false'') @ '')''
      | JNumber n \<Rightarrow> ''type number ('' @ (if n < 0 then ''-'' else []) @ show_nat (nat \<bar>n\<bar>) @ '')''
      | JString s \<Rightarrow> ''type string''
      | JArray vs \<Rightarrow> ''an instance of Array''
      | JObject kvs \<Rightarrow> ''an instance of Object'')"

definition demo_cfg :: "nat \<Rightarrow> config" where
  "demo_cfg n =
     \<lparr>totalPages = n, GEMINI_API_KEY = True, JSON_parse = demo_parse, received = demo_received,
      Buffer_from = (\<lambda>v. Inl (''TypeError [ERR_INVALID_ARG_TYPE]: The first argument must be '' @
        ''of type string or an instance of Buffer, ArrayBuffer, or Array or an Array-like '' @
        ''Object. Received '' @ demo_received v))\<rparr>"

definition demo_env :: "gen_outcome \<Rightarrow> attempt_env" where
  "demo_env g = \<lparr>converter = (\<lambda>p. Png (''untitled.'' @ show_nat p) ''IMG''),
                  generateContent = (\<lambda>imgs. g)\<rparr>"

definition blank_env :: "nat \<Rightarrow> string list \<Rightarrow> attempt_env" where
  "blank_env q expected =
     \<lparr>converter = (\<lambda>p. Png (''untitled.'' @ show_nat p) (if p = q then [] else ''IMG'' @ show_nat p)),
      generateContent = (\<lambda>imgs. if imgs = expected then GenResult (Some ok_text) else GenResult None)\<rparr>"

definition malformed :: "config \<Rightarrow> string option \<Rightarrow> bool" where
  "malformed cfg responseText =
     (case responseText of
        None \<Rightarrow> True
      | Some t \<Rightarrow>
          (case JSON_parse cfg t of
             None \<Rightarrow> True
           | Some j \<Rightarrow>
               (case content_of j of
                  JString frag \<Rightarrow> False
                | JArray chunks \<Rightarrow> False
                | c \<Rightarrow> \<not> isQuotaError (invalid_data cfg c))))"

definition resume_world :: world where
  "resume_world =
     \<lparr>outputDir = [(''page2.tex'', ''two''), (''main.tex'', ''% pages\<newline>''),
                   (''page10.tex'', ''ten''), (''untitled.3.png'', ''IMG''), (''page1.tex'', ''one'')],
      events = []\<rparr>"

definition large_name :: string where
  "large_name = ''page9007199254740993.tex''"

definition interrupted_world :: world where
  "interrupted_world =
     \<lparr>outputDir = [(''main.tex'', ''% pages\<newline>''), (''page1.tex'', ''one'')], events = []\<rparr>"

definition after_first_run :: world where
  "after_first_run =
     (case processPdfDocument (demo_cfg 2)
             [demo_env (GenResult (Some ok_text)), demo_env (GenThrows ''Error: fetch failed''),
              demo_env (GenThrows ''Error: fetch failed''), demo_env (GenThrows ''Error: fetch failed'')]
             small_world
      of Some (Inr w) \<Rightarrow> w | _ \<Rightarrow> small_world)"

section \<open>Properties\<close>

lemma digit_cases: "is_digit c \<longleftrightarrow> c \<in> set ''0123456789''"
  by (simp add: is_digit_def)

lemma not_digit_page [simp]:
  "\<not> is_digit CHR ''p''" "\<not> is_digit CHR ''a''" "\<not> is_digit CHR ''g''" "\<not> is_digit CHR ''e''"
  "\<not> is_digit CHR ''.''" 
  by (simp_all add: is_digit_def)

lemma takeWhile_digits_app:
  "\<forall>c\<in>set ds. is_digit c \<Longrightarrow> takeWhile is_digit (ds @ CHR ''.'' # r) = ds"
  by (induction ds) auto

lemma dropWhile_digits_app:
  "\<forall>c\<in>set ds. is_digit c \<Longrightarrow> dropWhile is_digit (ds @ CHR ''.'' # r) = CHR ''.'' # r"
  by (induction ds) auto

lemma is_page_tex_iff:
  "is_page_tex f \<longleftrightarrow> (\<exists>ds. ds \<noteq> [] \<and> (\<forall>c\<in>set ds. is_digit c) \<and> f = ''page'' @ ds @ ''.tex'')"
proof
  assume h: "is_page_tex f"
  let ?r = "drop 4 f"
  let ?ds = "takeWhile is_digit ?r"
  have "f = take 4 f @ ?r" by simp
  moreover have "?r = ?ds @ dropWhile is_digit ?r" by simp
  ultimately have "f = ''page'' @ ?ds @ ''.tex''"
    using h unfolding is_page_tex_def by metis
  moreover have "\<forall>c\<in>set ?ds. is_digit c" by (auto dest: set_takeWhileD)
  moreover have "?ds \<noteq> []" using h by (simp add: is_page_tex_def)
  ultimately show "\<exists>ds. ds \<noteq> [] \<and> (\<forall>c\<in>set ds. is_digit c) \<and> f = ''page'' @ ds @ ''.tex''"
    by blast
next
  assume "\<exists>ds. ds \<noteq> [] \<and> (\<forall>c\<in>set ds. is_digit c) \<and> f = ''page'' @ ds @ ''.tex''"
  then obtain ds where ds: "ds \<noteq> []" "\<forall>c\<in>set ds. is_digit c" "f = ''page'' @ ds @ ''.tex''"
    by blast
  show "is_page_tex f"
    using ds by (simp add: is_page_tex_def takeWhile_digits_app dropWhile_digits_app)
qed

lemma page_number_page_tex:
  assumes "is_page_tex f"
  shows "page_number f = Some (to_double (page_index f))"
proof -
  from assms obtain ds where ds: "ds \<noteq> []" "\<forall>c\<in>set ds. is_digit c" "f = ''page'' @ ds @ ''.tex''"
    unfolding is_page_tex_iff by blast
  then obtain d ds' where dd: "ds = d # ds'" "is_digit d" by (cases ds) auto
  have "dropWhile (\<lambda>c. \<not> is_digit c) f = ds @ ''.tex''"
    using ds(3) dd by simp
  moreover have "takeWhile is_digit (ds @ ''.tex'') = ds"
    using ds(2) by (simp add: takeWhile_digits_app)
  moreover have "takeWhile is_digit (drop 4 f) = ds"
    using ds by (simp add: takeWhile_digits_app)
  ultimately show ?thesis
    using ds(1) by (simp add: page_number_def match_digits_def page_index_def parseInt_def)
qed

lemma those_page_numbers:
  "\<forall>f\<in>set fs. is_page_tex f \<Longrightarrow>
   those (map page_number fs) = Some (map (\<lambda>f. to_double (page_index f)) fs)"
  by (induction fs) (auto simp: page_number_page_tex)

lemma Math_max_Max: "xs \<noteq> [] \<Longrightarrow> Math_max xs = Max (set xs)"
  by (cases xs) (simp_all add: Max.set_eq_fold [symmetric])

lemma getLast_eq:
  "getLastProcessedPageByTex files =
     Inr (Max (insert 0 ((\<lambda>f. to_double (page_index f)) ` {f \<in> set files. is_page_tex f})))"
proof (cases "filter is_page_tex files = []")
  case True
  then have e: "{f \<in> set files. is_page_tex f} = {}"
    by (auto simp: filter_empty_conv)
  show ?thesis unfolding e using True by (simp add: getLastProcessedPageByTex_def)
next
  case False
  let ?g = "\<lambda>f. to_double (page_index f)"
  have s: "set (filter is_page_tex files) = {f \<in> set files. is_page_tex f}" by auto
  have "those (map page_number (filter is_page_tex files)) = Some (map ?g (filter is_page_tex files))"
    by (rule those_page_numbers) simp
  moreover have "Math_max (map ?g (filter is_page_tex files))
      = Max (?g ` {f \<in> set files. is_page_tex f})"
    using False by (simp add: Math_max_Max s del: set_filter)
  moreover have "Max (insert 0 (?g ` {f \<in> set files. is_page_tex f}))
      = Max (?g ` {f \<in> set files. is_page_tex f})"
    using False by (subst Max_insert) (auto simp: filter_empty_conv)
  ultimately show ?thesis using False by (simp add: getLastProcessedPageByTex_def)
qed

lemma bitlen_le: "n < 2 ^ k \<Longrightarrow> bitlen n \<le> k"
proof (induction k arbitrary: n)
  case 0
  then show ?case by (simp add: bitlen.simps)
next
  case (Suc k)
  from Suc.prems have "n div 2 < 2 ^ k" by simp
  then have "bitlen (n div 2) \<le> k" by (rule Suc.IH)
  then show ?case by (subst bitlen.simps) simp
qed

lemma bitlen_gt: "2 ^ k \<le> n \<Longrightarrow> k < bitlen n"
proof (induction k arbitrary: n)
  case 0
  then show ?case by (subst bitlen.simps) simp
next
  case (Suc k)
  from Suc.prems have "2 ^ k \<le> n div 2" by simp
  then have "k < bitlen (n div 2)" by (rule Suc.IH)
  moreover have "n \<noteq> 0"
  proof
    assume "n = 0"
    with Suc.prems show False by simp
  qed
  ultimately show ?case by (subst bitlen.simps) simp
qed

lemma bitlen_lower: "n \<noteq> 0 \<Longrightarrow> 2 ^ (bitlen n - 1) \<le> n"
proof (induction n rule: bitlen.induct)
  case (1 n)
  show ?case
  proof (cases "n div 2 = 0")
    case True
    with "1.prems" have "bitlen n = 1" by (subst bitlen.simps, subst bitlen.simps) simp
    with "1.prems" show ?thesis by simp
  next
    case False
    with "1.IH" "1.prems" have ih: "2 ^ (bitlen (n div 2) - 1) \<le> n div 2" by simp
    have "0 < bitlen (n div 2)" using False by (subst bitlen.simps) simp
    then have "bitlen n - 1 = Suc (bitlen (n div 2) - 1)"
      using "1.prems" by (subst bitlen.simps) simp
    then have "2 ^ (bitlen n - 1) = 2 * 2 ^ (bitlen (n div 2) - 1)" by simp
    also have "\<dots> \<le> 2 * (n div 2)" using ih by simp
    also have "\<dots> \<le> n" by simp
    finally show ?thesis .
  qed
qed

lemma to_double_exact: "n < 2 ^ 53 \<Longrightarrow> to_double n = enat n"
proof -
  assume n: "n < 2 ^ 53"
  then have "bitlen n \<le> 53" by (rule bitlen_le)
  then show ?thesis by (simp add: to_double_def)
qed

lemma to_double_large:
  assumes "2 ^ 53 \<le> n"
  shows "enat (2 ^ 53) \<le> to_double n"
proof -
  define e where "e = bitlen n - 53"
  define q where "q = n div 2 ^ e"
  define m where "m = (if 2 ^ e < 2 * (n mod 2 ^ e) \<or> (2 * (n mod 2 ^ e) = 2 ^ e \<and> odd q) then q + 1 else q)"
  have b: "53 < bitlen n" using assms by (rule bitlen_gt)
  have n0: "n \<noteq> 0"
  proof
    assume "n = 0"
    with assms show False by simp
  qed
  have "bitlen n - 1 = 52 + e" using b by (simp add: e_def)
  then have "(2::nat) ^ 52 * 2 ^ e \<le> n"
    using bitlen_lower [OF n0] by (simp add: power_add)
  then have "2 ^ 52 \<le> q"
    unfolding q_def by (simp add: less_eq_div_iff_mult_less_eq)
  moreover have "q \<le> m" by (simp add: m_def)
  ultimately have "2 ^ 52 \<le> m" by simp
  moreover have "(2::nat) \<le> 2 ^ e" using b by (cases e) (simp_all add: e_def)
  ultimately have "(2::nat) ^ 52 * 2 \<le> m * 2 ^ e" by (rule mult_le_mono)
  then have "(2::nat) ^ 53 \<le> m * 2 ^ e" by simp
  moreover have "to_double n = (if bitlen m + e \<le> 1024 then enat (m * 2 ^ e) else \<infinity>)"
    by (simp add: to_double_def Let_def e_def q_def m_def)
  ultimately show ?thesis by simp
qed

lemma Max_enat: "finite S \<Longrightarrow> Max (insert 0 (enat ` S)) = enat (Max (insert 0 S))"
proof -
  assume "finite S"
  then have "enat (Max (insert 0 S)) = Max (enat ` insert 0 S)"
    by (intro mono_Max_commute) (auto simp: mono_def)
  then show ?thesis by (simp add: zero_enat_def)
qed

lemma getLast_exact:
  assumes "\<forall>f\<in>set files. is_page_tex f \<longrightarrow> page_index f < 2 ^ 53"
  shows "getLastProcessedPageByTex files
     = Inr (enat (Max (insert 0 (page_index ` {f \<in> set files. is_page_tex f}))))"
proof -
  let ?S = "{f \<in> set files. is_page_tex f}"
  have "(\<lambda>f. to_double (page_index f)) ` ?S = enat ` page_index ` ?S"
    using assms by (auto simp: to_double_exact image_iff)
  then show ?thesis by (simp add: getLast_eq Max_enat)
qed

lemma getLast_large:
  assumes "f \<in> set files" "is_page_tex f" "2 ^ 53 \<le> page_index f"
  shows "\<exists>s. getLastProcessedPageByTex files = Inr s \<and> enat (2 ^ 53) \<le> s"
proof -
  let ?T = "(\<lambda>f. to_double (page_index f)) ` {f \<in> set files. is_page_tex f}"
  have "to_double (page_index f) \<in> insert 0 ?T" using assms(1,2) by auto
  then have "to_double (page_index f) \<le> Max (insert 0 ?T)" by (intro Max_ge) auto
  with to_double_large [OF assms(3)] have "enat (2 ^ 53) \<le> Max (insert 0 ?T)"
    by (rule order_trans)
  then show ?thesis by (simp add: getLast_eq)
qed

lemma digit_char:
  assumes "n < 10"
  shows "digit_val (''0123456789'' ! n) = n" and "is_digit (''0123456789'' ! n)"
proof -
  from assms have "n \<in> {0, 1, 2, 3, 4, 5, 6, 7, 8, 9}"
    by simp arith
  then show "digit_val (''0123456789'' ! n) = n" and "is_digit (''0123456789'' ! n)"
    by (auto simp: digit_val_def is_digit_def)
qed

lemma decimal_snoc: "decimal (ds @ [c]) = 10 * decimal ds + digit_val c"
  by (simp add: decimal_def)

lemma show_nat_digits: "c \<in> set (show_nat n) \<Longrightarrow> is_digit c"
proof (induction n rule: show_nat.induct)
  case (1 n)
  show ?case
  proof (cases "n < 10")
    case True
    with "1.prems" show ?thesis by (subst (asm) show_nat.simps) (simp add: digit_char)
  next
    case False
    with "1.prems" "1.IH" show ?thesis
      by (subst (asm) show_nat.simps) (auto simp: digit_char)
  qed
qed

lemma show_nat_nonempty: "show_nat n \<noteq> []"
  by (subst show_nat.simps) simp

lemma decimal_show_nat: "decimal (show_nat n) = n"
proof (induction n rule: show_nat.induct)
  case (1 n)
  show ?case
  proof (cases "n < 10")
    case True
    then show ?thesis by (subst show_nat.simps) (simp add: decimal_def digit_char)
  next
    case False
    with "1.IH" show ?thesis
      by (subst show_nat.simps) (simp add: decimal_snoc digit_char)
  qed
qed

lemma is_page_tex_pageTexName: "is_page_tex (pageTexName n)"
  unfolding is_page_tex_iff pageTexName_def
  using show_nat_nonempty show_nat_digits by blast

lemma page_index_pageTexName: "page_index (pageTexName n) = n"
proof -
  have "takeWhile is_digit (show_nat n @ ''.tex'') = show_nat n"
    using show_nat_digits by (simp add: takeWhile_digits_app)
  then show ?thesis by (simp add: page_index_def pageTexName_def decimal_show_nat)
qed

lemma pageTexName_inj: "pageTexName m = pageTexName n \<Longrightarrow> m = n"
  using page_index_pageTexName by metis

lemma page_tex_suffix: "is_page_tex f \<Longrightarrow> suffix ''.tex'' f"
  unfolding is_page_tex_iff by (auto simp: suffix_def)

lemma not_page_tex_main: "\<not> is_page_tex MAIN_TEX"
  by (simp add: is_page_tex_def MAIN_TEX_def)

lemma not_page_tex_png: "\<not> is_page_tex (stem @ ''.png'')"
proof
  assume "is_page_tex (stem @ ''.png'')"
  then have "suffix ''.tex'' (stem @ ''.png'')" by (rule page_tex_suffix)
  then obtain x where "stem @ ''.png'' = x @ ''.tex''"
    unfolding suffix_def by blast
  then have "last (stem @ ''.png'') = last (x @ ''.tex'')" by simp
  then show False by simp
qed

lemma getLast_set_cong:
  "set files' = set files \<Longrightarrow> getLastProcessedPageByTex files' = getLastProcessedPageByTex files"
  by (simp add: getLast_eq)

lemma getLast_ignores:
  "\<not> is_page_tex f \<Longrightarrow> getLastProcessedPageByTex (xs @ f # ys) = getLastProcessedPageByTex (xs @ ys)"
  by (simp add: getLastProcessedPageByTex_def)

lemma events_log [simp]: "events (log ev w) = events w @ [ev]"
  by (simp add: log_def)

lemma outputDir_log [simp]: "outputDir (log ev w) = outputDir w"
  by (simp add: log_def)

lemma events_writeFile [simp]: "events (writeFile name data w) = events w"
  by (simp add: writeFile_def)

lemma outputDir_writeFile [simp]:
  "outputDir (writeFile name data w) = AList.update name data (outputDir w)"
  by (simp add: writeFile_def)

lemma readFile_log [simp]: "readFile name (log ev w) = readFile name w"
  by (simp add: readFile_def)

lemma readFile_writeFile [simp]:
  "readFile name (writeFile name' data w) = (if name = name' then Some data else readFile name w)"
  by (simp add: readFile_def update_conv')

lemma events_appendFile [simp]: "events (appendFile name data w) = events w"
  by (simp add: appendFile_def)

text \<open>The context window\<close>

lemma getImageBuffer_out_of_range:
  "pageIdx < 1 \<or> totalPages cfg < pageIdx \<Longrightarrow> getImageBuffer cfg e pageIdx w = (Inr None, w)"
  by (simp add: getImageBuffer_def)

lemma getImageBuffer_events:
  "getImageBuffer cfg e pageIdx w = (r, w') \<Longrightarrow>
   events w' = events w @ (if 1 \<le> pageIdx \<and> pageIdx \<le> totalPages cfg then [Convert pageIdx] else [])"
  by (auto simp: getImageBuffer_def split: if_splits convert_outcome.splits)

lemma getImageBuffer_Png:
  "1 \<le> pageIdx \<Longrightarrow> pageIdx \<le> totalPages cfg \<Longrightarrow> converter e pageIdx = Png stem buf \<Longrightarrow>
   getImageBuffer cfg e pageIdx w =
     (Inr (if buf = [] then None else Some buf), writeFile (stem @ ''.png'') buf (log (Convert pageIdx) w))"
  by (auto simp: getImageBuffer_def)

lemma getImageBuffer_no_throw:
  "\<forall>err. converter e pageIdx \<noteq> ConvertThrows err \<Longrightarrow> \<exists>b. fst (getImageBuffer cfg e pageIdx w) = Inr b"
  by (auto simp: getImageBuffer_def split: convert_outcome.splits)

lemma contextWindow_events:
  assumes "contextWindow cfg e pageNum w = (r, w')"
    and "1 \<le> pageNum" "pageNum \<le> totalPages cfg"
  shows "\<exists>qs. events w' = events w @ map Convert qs \<and> prefix qs (requested cfg pageNum)
           \<and> ((\<exists>win. r = Inr win) \<longrightarrow> qs = requested cfg pageNum)"
proof -
  obtain r1 w1 where g1: "getImageBuffer cfg e (pageNum - 1) w = (r1, w1)" by fastforce
  obtain r2 w2 where g2: "getImageBuffer cfg e pageNum w1 = (r2, w2)" by fastforce
  obtain r3 w3 where g3: "getImageBuffer cfg e (pageNum + 1) w2 = (r3, w3)" by fastforce
  note ev = getImageBuffer_events [OF g1] getImageBuffer_events [OF g2] getImageBuffer_events [OF g3]
  let ?a = "if 1 \<le> pageNum - 1 then [pageNum - 1] else []"
  let ?c = "if pageNum + 1 \<le> totalPages cfg then [pageNum + 1] else []"
  have e1: "events w1 = events w @ map Convert ?a" using ev(1) assms(2,3) by auto
  have e2: "events w2 = events w @ map Convert (?a @ [pageNum])" using ev(2) e1 assms(2,3) by auto
  have e3: "events w3 = events w @ map Convert (?a @ [pageNum] @ ?c)" using ev(3) e2 by auto
  consider (t1) err where "r1 = Inl err" | (t2) b1 err where "r1 = Inr b1" "r2 = Inl err"
    | (t3) b1 b2 err where "r1 = Inr b1" "r2 = Inr b2" "r3 = Inl err"
    | (ok) b1 b2 b3 where "r1 = Inr b1" "r2 = Inr b2" "r3 = Inr b3"
    by (cases r1; cases r2; cases r3) auto
  then show ?thesis
  proof cases
    case t1
    with assms(1) g1 have "w' = w1" "r = Inl err" by (auto simp: contextWindow_def)
    with e1 show ?thesis by (intro exI [of _ ?a]) (auto simp: requested_def)
  next
    case t2
    with assms(1) g1 g2 have "w' = w2" "r = Inl err" by (auto simp: contextWindow_def)
    with e2 show ?thesis by (intro exI [of _ "?a @ [pageNum]"]) (auto simp: requested_def)
  next
    case t3
    with assms(1) g1 g2 g3 have "w' = w3" "r = Inl err" by (auto simp: contextWindow_def)
    with e3 show ?thesis by (intro exI [of _ "?a @ [pageNum] @ ?c"]) (auto simp: requested_def)
  next
    case ok
    with assms(1) g1 g2 g3 have "w' = w3" by (auto simp: contextWindow_def)
    with e3 show ?thesis by (intro exI [of _ "?a @ [pageNum] @ ?c"]) (auto simp: requested_def)
  qed
qed

lemma contextWindow_no_throw:
  assumes "\<forall>q err. converter e q \<noteq> ConvertThrows err"
  shows "\<exists>win. fst (contextWindow cfg e pageNum w) = Inr win"
proof -
  have nt: "\<And>q w. \<exists>b w'. getImageBuffer cfg e q w = (Inr b, w')"
    using assms by (auto simp: getImageBuffer_def split: convert_outcome.splits)
  obtain b1 w1 where g1: "getImageBuffer cfg e (pageNum - 1) w = (Inr b1, w1)" using nt by blast
  obtain b2 w2 where g2: "getImageBuffer cfg e pageNum w1 = (Inr b2, w2)" using nt by blast
  obtain b3 w3 where g3: "getImageBuffer cfg e (pageNum + 1) w2 = (Inr b3, w3)" using nt by blast
  show ?thesis using g1 g2 g3 by (simp add: contextWindow_def)
qed

lemma contextWindow_images:
  assumes "\<forall>q. \<exists>stem. converter e q = Png stem (img q)" "\<forall>q. img q \<noteq> []"
    and "1 \<le> pageNum" "pageNum \<le> totalPages cfg"
  shows "fst (contextWindow cfg e pageNum w) =
     Inr (if 1 \<le> pageNum - 1 then Some (img (pageNum - 1)) else None,
          Some (img pageNum),
          if pageNum + 1 \<le> totalPages cfg then Some (img (pageNum + 1)) else None)"
proof -
  have gi: "\<And>q w. fst (getImageBuffer cfg e q w) = Inr (if 1 \<le> q \<and> q \<le> totalPages cfg then Some (img q) else None)"
  proof -
    fix q w
    obtain stem where "converter e q = Png stem (img q)" using assms(1) by blast
    then show "fst (getImageBuffer cfg e q w) = Inr (if 1 \<le> q \<and> q \<le> totalPages cfg then Some (img q) else None)"
      using assms(2) by (auto simp: getImageBuffer_def)
  qed
  obtain r1 w1 where g1: "getImageBuffer cfg e (pageNum - 1) w = (r1, w1)" by fastforce
  obtain r2 w2 where g2: "getImageBuffer cfg e pageNum w1 = (r2, w2)" by fastforce
  obtain r3 w3 where g3: "getImageBuffer cfg e (pageNum + 1) w2 = (r3, w3)" by fastforce
  have "r1 = Inr (if 1 \<le> pageNum - 1 then Some (img (pageNum - 1)) else None)"
    using gi [of "pageNum - 1" w] g1 assms(3,4) by auto
  moreover have "r2 = Inr (Some (img pageNum))"
    using gi [of pageNum w1] g2 assms(3,4) by auto
  moreover have "r3 = Inr (if pageNum + 1 \<le> totalPages cfg then Some (img (pageNum + 1)) else None)"
    using gi [of "pageNum + 1" w2] g3 by auto
  ultimately show ?thesis using g1 g2 g3 by (simp add: contextWindow_def)
qed

lemma not_quota_api_failed: "\<not> isQuotaError (new_Error ''API-Anfrage fehlgeschlagen.'')"
  by code_simp

lemma not_quota_api_key: "\<not> isQuotaError (new_Error ''GEMINI_API_KEY Umgebungsvariable nicht gesetzt.'')"
  by code_simp

lemma not_quota_no_image: "\<not> isQuotaError (new_Error ''Seitenbild konnte nicht extrahiert werden.'')"
  by code_simp

lemma processPageWithGemini_errors:
  "processPageWithGemini cfg e bufs = Inl err \<Longrightarrow>
   err = new_Error ''GEMINI_API_KEY Umgebungsvariable nicht gesetzt.'' \<or>
   err = new_Error ''API-Anfrage fehlgeschlagen.''"
  by (auto simp: processPageWithGemini_def split: if_splits sum.splits)

lemma processPageWithGemini_not_quota:
  "processPageWithGemini cfg e bufs = Inl err \<Longrightarrow> \<not> isQuotaError err"
  using processPageWithGemini_errors not_quota_api_failed not_quota_api_key by blast

lemma retryLoop_exhausted:
  "MAX_RETRIES < attempt \<Longrightarrow> retryLoop cfg pageNum attempt envs w = Some (False, w, envs)"
  by (cases envs) simp_all

lemma retryLoop_success:
  "attempt \<le> MAX_RETRIES \<Longrightarrow> attemptOnce cfg e pageNum (log (Attempt pageNum attempt) w) = (Inr u, w1) \<Longrightarrow>
   retryLoop cfg pageNum attempt (e # es) w = Some (True, w1, es)"
  by simp

lemma retryLoop_counted:
  "attempt \<le> MAX_RETRIES \<Longrightarrow> attemptOnce cfg e pageNum (log (Attempt pageNum attempt) w) = (Inl err, w1) \<Longrightarrow>
   \<not> isQuotaError err \<Longrightarrow>
   retryLoop cfg pageNum attempt (e # es) w =
     retryLoop cfg pageNum (attempt + 1) es (log (Failed pageNum attempt err) w1)"
  by simp

lemma retryLoop_uncounted:
  "attempt \<le> MAX_RETRIES \<Longrightarrow> attemptOnce cfg e pageNum (log (Attempt pageNum attempt) w) = (Inl err, w1) \<Longrightarrow>
   isQuotaError err \<Longrightarrow>
   retryLoop cfg pageNum attempt (e # es) w = retryLoop cfg pageNum attempt es w1"
  by simp

lemma prefix_boundary:
  assumes "u \<noteq> []" "b = [] \<or> hd b \<notin> set (tl t)"
  shows "prefix t (u @ b) \<longleftrightarrow> prefix t u"
proof
  assume "prefix t (u @ b)"
  then consider "prefix t u" | us where "t = u @ us" "prefix us b"
    unfolding prefix_append by blast
  then show "prefix t u"
  proof cases
    case 1 then show ?thesis .
  next
    case 2
    show ?thesis
    proof (cases us)
      case Nil with 2 show ?thesis by simp
    next
      case (Cons x xs)
      with 2(2) have "b \<noteq> []" "hd b = x" by (auto simp: prefix_def)
      moreover from 2(1) Cons assms(1) have "x \<in> set (tl t)" by (cases u) auto
      ultimately show ?thesis using assms(2) by simp
    qed
  qed
qed (simp add: prefix_prefix)

lemma count_occ_append:
  assumes "t \<noteq> []" "b = [] \<or> hd b \<notin> set (tl t)"
  shows "count_occ t (a @ b) = count_occ t a + count_occ t b"
proof (induction a)
  case Nil
  then show ?case using assms(1) by simp
next
  case (Cons c a)
  have "prefix t ((c # a) @ b) \<longleftrightarrow> prefix t (c # a)"
    using assms(2) by (intro prefix_boundary) simp_all
  with Cons show ?case by simp
qed

lemma count_occ_zero: "t \<noteq> [] \<Longrightarrow> count_occ t s = 0 \<longleftrightarrow> \<not> str_includes s t"
  by (induction s) auto

lemma last_occurrence_includes: "last_occurrence s t \<noteq> None \<longleftrightarrow> str_includes s t"
  by (induction s) (auto split: option.splits)

lemma last_occurrence_le: "last_occurrence s t = Some i \<Longrightarrow> i \<le> length s"
  by (induction s arbitrary: i) (auto split: option.splits if_splits)

lemma last_occurrence_prefix: "last_occurrence s t = Some i \<Longrightarrow> prefix t (drop i s)"
  by (induction s arbitrary: i) (auto split: option.splits if_splits)

lemma last_occurrence_drop: "last_occurrence s t = Some i \<Longrightarrow> last_occurrence (drop i s) t = Some 0"
  by (induction s arbitrary: i) (auto split: option.splits if_splits)

lemma last_occurrence_append:
  "last_occurrence b t = Some j \<Longrightarrow> last_occurrence (a @ b) t = Some (length a + j)"
  by (induction a) auto

lemma takeWhile_boundary: "b = [] \<or> \<not> P (hd b) \<Longrightarrow> takeWhile P (a @ b) = takeWhile P a"
  by (induction a) (auto simp: takeWhile_eq_Nil_iff)

lemma dropWhile_boundary: "b = [] \<or> \<not> P (hd b) \<Longrightarrow> dropWhile P (a @ b) = dropWhile P a @ b"
  by (induction a) (auto simp: dropWhile_eq_self_iff)

lemma prefix_single_boundary: "b = [] \<or> hd b \<noteq> x \<Longrightarrow> prefix [x] (d @ b) \<longleftrightarrow> prefix [x] d"
  by (cases d; cases b) auto

lemma boundary_newline: "boundary_char CHR ''\<newline>''"
  by (simp add: boundary_char_def include_key_def is_digit_def)

lemma boundary_backslash: "boundary_char (CHR 0x5C)"
  by (simp add: boundary_char_def include_key_def is_digit_def)

lemma ref_at_boundary:
  assumes "u \<noteq> []" "b = [] \<or> boundary_char (hd b)"
  shows "ref_at (u @ b) = ref_at u"
proof (cases "prefix include_key u")
  case False
  then have "\<not> prefix include_key (u @ b)"
    using assms prefix_boundary [of u b include_key] by (auto simp: boundary_char_def)
  with False show ?thesis by (simp add: ref_at_def)
next
  case True
  then obtain r where u: "u = include_key @ r" by (auto simp: prefix_def)
  have tw: "takeWhile is_digit (r @ b) = takeWhile is_digit r"
    using assms(2) by (intro takeWhile_boundary) (auto simp: boundary_char_def)
  have dw: "dropWhile is_digit (r @ b) = dropWhile is_digit r @ b"
    using assms(2) by (intro dropWhile_boundary) (auto simp: boundary_char_def)
  have pf: "prefix ''}'' (dropWhile is_digit r @ b) \<longleftrightarrow> prefix ''}'' (dropWhile is_digit r)"
    using assms(2) by (intro prefix_single_boundary) (auto simp: boundary_char_def)
  show ?thesis unfolding u by (simp add: ref_at_def tw dw pf)
qed

lemma includeRefs_append:
  assumes "b = [] \<or> boundary_char (hd b)"
  shows "includeRefs (a @ b) = includeRefs a @ includeRefs b"
proof (induction a)
  case Nil show ?case by simp
next
  case (Cons c a)
  have "ref_at ((c # a) @ b) = ref_at (c # a)" using assms by (intro ref_at_boundary) simp_all
  with Cons show ?case by simp
qed

lemma ref_at_not_backslash: "c \<noteq> CHR 0x5C \<Longrightarrow> ref_at (c # s) = None"
  by (simp add: ref_at_def include_key_def)

lemma includeRefs_no_backslash: "CHR 0x5C \<notin> set u \<Longrightarrow> includeRefs (u @ v) = includeRefs v"
  by (induction u) (auto simp: ref_at_not_backslash)

lemma show_nat_no_backslash: "CHR 0x5C \<notin> set (show_nat n)"
  using show_nat_digits [of "CHR 0x5C" n] by (auto simp: is_digit_def)

lemma ref_at_include: "ref_at (include_key @ show_nat p @ CHR ''}'' # rest) = Some p"
proof -
  have nd: "\<not> is_digit CHR ''}''" by (simp add: is_digit_def)
  have "takeWhile is_digit (show_nat p @ CHR ''}'' # rest) = show_nat p"
    using show_nat_digits nd by (simp add: takeWhile_append2 [where ys = "CHR ''}'' # rest"] takeWhile_tail)
  moreover have "dropWhile is_digit (show_nat p @ CHR ''}'' # rest) = CHR ''}'' # rest"
    using show_nat_digits nd by (simp add: dropWhile_append3)
  ultimately show ?thesis
    by (simp add: ref_at_def show_nat_nonempty decimal_show_nat)
qed

lemma includeRefs_includeLine: "includeRefs (includeLine p @ rest) = p # includeRefs rest"
proof -
  define X where "X = ''include{page'' @ show_nat p @ ''}''"
  have il: "includeLine p @ rest = CHR ''\<newline>'' # CHR 0x5C # X @ rest"
    by (simp add: includeLine_def X_def)
  have key: "CHR 0x5C # X @ rest = include_key @ show_nat p @ CHR ''}'' # rest"
    by (simp add: include_key_def X_def)
  have nb: "CHR 0x5C \<notin> set X"
    using show_nat_no_backslash by (simp add: X_def)
  have r0: "ref_at (CHR ''\<newline>'' # CHR 0x5C # X @ rest) = None"
    by (rule ref_at_not_backslash) simp
  have r1: "ref_at (CHR 0x5C # X @ rest) = Some p"
    unfolding key by (rule ref_at_include)
  have "includeRefs (CHR ''\<newline>'' # CHR 0x5C # X @ rest) = includeRefs (CHR 0x5C # X @ rest)"
    by (simp only: includeRefs.simps r0 option.case append_Nil)
  also have "\<dots> = p # includeRefs (X @ rest)"
    by (simp only: includeRefs.simps r1 option.case append_Cons append_Nil)
  also have "includeRefs (X @ rest) = includeRefs rest"
    using nb by (rule includeRefs_no_backslash)
  finally show ?thesis unfolding il .
qed

lemma slice_take: "idx \<le> length s \<Longrightarrow> slice s 0 (int idx) = take idx s"
  by (simp add: slice_def slice_index_def)

lemma slice_from_drop: "idx \<le> length s \<Longrightarrow> slice_from s (int idx) = drop idx s"
  by (simp add: slice_from_def slice_index_def)

lemma updateMainTex_absent:
  "last_occurrence m end_document = None \<Longrightarrow> updateMainTex p m = m @ includeLine p"
  using last_occurrence_includes [of m end_document] by (simp add: updateMainTex_def)

lemma updateMainTex_present:
  assumes "last_occurrence m end_document = Some idx"
  shows "updateMainTex p m = take idx m @ includeLine p @ ''\<newline>'' @ drop idx m"
proof -
  have "str_includes m end_document"
    using assms last_occurrence_includes [of m end_document] by simp
  moreover have "idx \<le> length m" using assms by (rule last_occurrence_le)
  ultimately show ?thesis
    using assms by (simp add: updateMainTex_def lastIndexOf_def slice_take slice_from_drop)
qed

lemma end_document_nonempty: "end_document \<noteq> []"
  by (simp add: end_document_def)

lemma not_includes_no_hd: "t \<noteq> [] \<Longrightarrow> hd t \<notin> set s \<Longrightarrow> \<not> str_includes s t"
proof (induction s)
  case Nil
  then show ?case by simp
next
  case (Cons a s)
  then have "\<not> prefix t (a # s)" by (cases t) auto
  with Cons show ?case by simp
qed

lemma includeLine_no_marker: "\<not> str_includes (includeLine p @ ''\<newline>'') end_document"
proof -
  define X where "X = ''nclude{page'' @ show_nat p @ ''}\<newline>''"
  have il: "includeLine p @ ''\<newline>'' = CHR ''\<newline>'' # CHR 0x5C # CHR ''i'' # X"
    by (simp add: includeLine_def X_def)
  have "CHR 0x5C \<notin> set X" using show_nat_no_backslash by (simp add: X_def)
  then have "\<not> str_includes X end_document"
    by (intro not_includes_no_hd) (simp_all add: end_document_def)
  moreover have "\<not> prefix end_document (CHR ''\<newline>'' # CHR 0x5C # CHR ''i'' # X)"
    by (simp add: end_document_def)
  moreover have "\<not> prefix end_document (CHR 0x5C # CHR ''i'' # X)"
    by (simp add: end_document_def)
  moreover have "\<not> prefix end_document (CHR ''i'' # X)"
    by (simp add: end_document_def)
  ultimately show ?thesis unfolding il by (simp only: str_includes.simps simp_thms)
qed

lemma count_includeLine: "count_occ end_document (includeLine p @ ''\<newline>'') = 0"
  using includeLine_no_marker by (simp add: count_occ_zero end_document_nonempty)

lemma hd_includeLine: "hd (includeLine p @ s) = CHR ''\<newline>''"
  by (simp add: includeLine_def)

lemma newline_not_in_marker: "CHR ''\<newline>'' \<notin> set (tl end_document)"
  by (simp add: end_document_def)

lemma backslash_not_in_marker: "CHR 0x5C \<notin> set (tl end_document)"
  by (simp add: end_document_def)

lemma not_space_backslash: "\<not> is_space (CHR 0x5C)"
  by (simp add: is_space_def)

lemma includeRefs_marker_tail:
  assumes "list_all is_space post"
  shows "includeRefs (end_document @ post) = []"
proof -
  have "CHR 0x5C \<notin> set post" using assms not_space_backslash by (auto simp: list_all_iff)
  then have "CHR 0x5C \<notin> set (''end{document}'' @ post)" by simp
  then have "includeRefs ((''end{document}'' @ post) @ []) = includeRefs []"
    by (rule includeRefs_no_backslash)
  then have t: "includeRefs (''end{document}'' @ post) = []"
    by (simp only: append_Nil2 includeRefs.simps)
  have r: "ref_at (CHR 0x5C # ''end{document}'' @ post) = None"
    by (simp add: ref_at_def include_key_def)
  have "end_document @ post = CHR 0x5C # ''end{document}'' @ post"
    by (simp add: end_document_def)
  then show ?thesis
    by (simp only: includeRefs.simps r t option.case append_Nil)
qed

lemma includeRefs_updateMainTex:
  assumes "marker_ok m"
  shows "includeRefs (updateMainTex p m) = includeRefs m @ [p]"
proof (cases "last_occurrence m end_document")
  case None
  have "includeRefs (m @ includeLine p) = includeRefs m @ includeRefs (includeLine p @ [])"
    using hd_includeLine [of p "[]"] boundary_newline by (simp add: includeRefs_append)
  also have "includeRefs (includeLine p @ []) = [p]"
    by (simp only: includeRefs_includeLine includeRefs.simps)
  finally show ?thesis using None by (simp add: updateMainTex_absent)
next
  case (Some idx)
  define pre where "pre = take idx m"
  define post where "post = drop (idx + length end_document) m"
  have sp: "list_all is_space post"
    using assms Some by (simp add: marker_ok_def post_def)
  have "prefix end_document (drop idx m)" using Some by (rule last_occurrence_prefix)
  then obtain zs where zs: "drop idx m = end_document @ zs" by (auto simp: prefix_def)
  have "post = drop (length end_document) (drop idx m)" by (simp add: post_def add.commute)
  then have "post = zs" unfolding zs by simp
  with zs have rest: "drop idx m = end_document @ post" by simp
  have m: "m = pre @ end_document @ post"
    using rest by (metis append_take_drop_id pre_def)
  have hd_rest: "boundary_char (hd (end_document @ post))"
    using boundary_backslash by (simp add: end_document_def)
  have tail: "includeRefs (end_document @ post) = []"
    using sp by (rule includeRefs_marker_tail)
  have old: "includeRefs m = includeRefs pre"
    unfolding m using hd_rest tail by (simp add: includeRefs_append)
  have new: "updateMainTex p m = pre @ (includeLine p @ (''\<newline>'' @ end_document @ post))"
    using Some rest by (simp add: updateMainTex_present pre_def)
  have "includeRefs (pre @ (includeLine p @ (''\<newline>'' @ end_document @ post)))
      = includeRefs pre @ includeRefs (includeLine p @ (''\<newline>'' @ end_document @ post))"
    using hd_includeLine boundary_newline by (intro includeRefs_append) simp
  also have "includeRefs (includeLine p @ (''\<newline>'' @ end_document @ post))
      = p # includeRefs (''\<newline>'' @ (end_document @ post))"
    by (simp only: includeRefs_includeLine)
  also have "includeRefs (''\<newline>'' @ (end_document @ post)) = includeRefs (end_document @ post)"
    by (rule includeRefs_no_backslash) simp
  finally show ?thesis using old tail new by simp
qed

lemma marker_split:
  assumes "last_occurrence m end_document = Some idx"
  shows "drop idx m = end_document @ drop (idx + length end_document) m"
    and "m = take idx m @ end_document @ drop (idx + length end_document) m"
    and "idx \<le> length m"
proof -
  have "prefix end_document (drop idx m)" using assms by (rule last_occurrence_prefix)
  then obtain zs where zs: "drop idx m = end_document @ zs" by (auto simp: prefix_def)
  have "drop (idx + length end_document) m = drop (length end_document) (drop idx m)"
    by (simp add: add.commute)
  then have "drop (idx + length end_document) m = zs" unfolding zs by simp
  with zs show r: "drop idx m = end_document @ drop (idx + length end_document) m" by simp
  then show "m = take idx m @ end_document @ drop (idx + length end_document) m"
    by (metis append_take_drop_id)
  show "idx \<le> length m" using assms by (rule last_occurrence_le)
qed

lemma includeLine_no_marker':
  assumes "CHR 0x5C \<notin> set ws"
  shows "\<not> str_includes (includeLine p @ ws) end_document"
proof -
  define X where "X = ''nclude{page'' @ show_nat p @ ''}'' @ ws"
  have il: "includeLine p @ ws = CHR ''\<newline>'' # CHR 0x5C # CHR ''i'' # X"
    by (simp add: includeLine_def X_def)
  have "CHR 0x5C \<notin> set X" using show_nat_no_backslash assms by (simp add: X_def)
  then have "\<not> str_includes X end_document"
    by (intro not_includes_no_hd) (simp_all add: end_document_def)
  moreover have "\<not> prefix end_document (CHR ''\<newline>'' # CHR 0x5C # CHR ''i'' # X)"
    by (simp add: end_document_def)
  moreover have "\<not> prefix end_document (CHR 0x5C # CHR ''i'' # X)"
    by (simp add: end_document_def)
  moreover have "\<not> prefix end_document (CHR ''i'' # X)"
    by (simp add: end_document_def)
  ultimately show ?thesis unfolding il by (simp only: str_includes.simps simp_thms)
qed

lemma count_includeLine': "CHR 0x5C \<notin> set ws \<Longrightarrow> count_occ end_document (includeLine p @ ws) = 0"
  using includeLine_no_marker' by (simp add: count_occ_zero end_document_nonempty)

lemma hd_marker: "hd (end_document @ s) = CHR 0x5C"
  by (simp add: end_document_def)

lemma last_occurrence_updateMainTex:
  "last_occurrence (updateMainTex p m) end_document =
     (case last_occurrence m end_document of
        None \<Rightarrow> None
      | Some idx \<Rightarrow> Some (idx + length (includeLine p) + 1))"
proof (cases "last_occurrence m end_document")
  case None
  then have "count_occ end_document m = 0"
    using last_occurrence_includes [of m end_document]
    by (simp add: count_occ_zero end_document_nonempty)
  moreover have "count_occ end_document (includeLine p @ []) = 0"
    by (rule count_includeLine') simp
  moreover have "count_occ end_document (m @ includeLine p)
      = count_occ end_document m + count_occ end_document (includeLine p)"
    using hd_includeLine [of p "[]"] newline_not_in_marker
    by (intro count_occ_append end_document_nonempty) simp
  ultimately have "count_occ end_document (m @ includeLine p) = 0" by simp
  then have "last_occurrence (m @ includeLine p) end_document = None"
    using last_occurrence_includes [of "m @ includeLine p" end_document]
    by (simp add: count_occ_zero end_document_nonempty)
  with None show ?thesis by (simp add: updateMainTex_absent)
next
  case (Some idx)
  note sp = marker_split [OF Some]
  have "last_occurrence (drop idx m) end_document = Some 0" using Some by (rule last_occurrence_drop)
  then have "last_occurrence ((take idx m @ includeLine p @ ''\<newline>'') @ drop idx m) end_document
      = Some (length (take idx m @ includeLine p @ ''\<newline>'') + 0)"
    by (rule last_occurrence_append)
  then show ?thesis using Some sp(3) by (simp add: updateMainTex_present)
qed

lemma count_occ_updateMainTex:
  "count_occ end_document (updateMainTex p m) = count_occ end_document m"
proof (cases "last_occurrence m end_document")
  case None
  have "count_occ end_document (includeLine p @ []) = 0"
    by (rule count_includeLine') simp
  moreover have "count_occ end_document (m @ includeLine p)
      = count_occ end_document m + count_occ end_document (includeLine p)"
    using hd_includeLine [of p "[]"] newline_not_in_marker
    by (intro count_occ_append end_document_nonempty) simp
  ultimately show ?thesis using None by (simp add: updateMainTex_absent)
next
  case (Some idx)
  note sp = marker_split [OF Some]
  define pre where "pre = take idx m"
  define rest where "rest = drop idx m"
  have hr: "hd rest = CHR 0x5C" unfolding rest_def by (subst sp(1)) (rule hd_marker)
  have rne: "rest \<noteq> []" unfolding rest_def by (subst sp(1)) (simp add: end_document_nonempty)
  have b1: "rest = [] \<or> hd rest \<notin> set (tl end_document)"
    using hr backslash_not_in_marker by simp
  have m: "m = pre @ rest" by (simp add: pre_def rest_def)
  have c_old: "count_occ end_document (pre @ rest) = count_occ end_document pre + count_occ end_document rest"
    using b1 by (intro count_occ_append end_document_nonempty)
  have "count_occ end_document (pre @ ((includeLine p @ ''\<newline>'') @ rest))
      = count_occ end_document pre + count_occ end_document ((includeLine p @ ''\<newline>'') @ rest)"
    using hd_includeLine [of p "''\<newline>'' @ rest"] newline_not_in_marker
    by (intro count_occ_append end_document_nonempty) simp
  also have "count_occ end_document ((includeLine p @ ''\<newline>'') @ rest)
      = count_occ end_document (includeLine p @ ''\<newline>'') + count_occ end_document rest"
    using b1 by (intro count_occ_append end_document_nonempty)
  also have "count_occ end_document (includeLine p @ ''\<newline>'') = 0"
    by (rule count_includeLine') simp
  finally have "count_occ end_document (pre @ ((includeLine p @ ''\<newline>'') @ rest))
      = count_occ end_document (pre @ rest)" using c_old by simp
  moreover have "updateMainTex p m = pre @ ((includeLine p @ ''\<newline>'') @ rest)"
    using Some by (simp add: updateMainTex_present pre_def rest_def)
  ultimately show ?thesis using m by simp
qed

lemma marker_ok_updateMainTex:
  assumes "marker_ok m"
  shows "marker_ok (updateMainTex p m)"
proof (cases "last_occurrence m end_document")
  case None
  then show ?thesis by (simp add: marker_ok_def last_occurrence_updateMainTex)
next
  case (Some idx)
  note sp = marker_split [OF Some]
  have "drop (idx + length (includeLine p) + 1 + length end_document) (updateMainTex p m)
      = drop (idx + length end_document) m"
  proof -
    have "updateMainTex p m = (take idx m @ includeLine p @ ''\<newline>'') @ drop idx m"
      using Some by (simp add: updateMainTex_present)
    moreover have "length (take idx m @ includeLine p @ ''\<newline>'') = idx + length (includeLine p) + 1"
      using sp(3) by simp
    ultimately have "drop (idx + length (includeLine p) + 1) (updateMainTex p m) = drop idx m"
      by (metis append_eq_conv_conj)
    then have "drop (length end_document) (drop (idx + length (includeLine p) + 1) (updateMainTex p m))
        = drop (length end_document) (drop idx m)" by simp
    then show ?thesis by (simp add: add.commute)
  qed
  then show ?thesis
    using assms Some
    by (simp add: marker_ok_def last_occurrence_updateMainTex count_occ_updateMainTex)
qed

lemma includes_updateMainTex:
  "str_includes (updateMainTex p m) end_document \<longleftrightarrow> str_includes m end_document"
  using last_occurrence_includes [of "updateMainTex p m" end_document]
    last_occurrence_includes [of m end_document]
  by (simp add: last_occurrence_updateMainTex split: option.splits)

text \<open>Closing\<close>

lemma last_occurrence_closing: "last_occurrence closing end_document = Some 2"
  by code_simp

lemma count_occ_closing: "count_occ end_document closing = 1"
  by code_simp

lemma includeRefs_closing: "includeRefs closing = []"
  by code_simp

lemma hd_closing: "hd closing = CHR ''\<newline>''"
  by (simp add: closing_def)

lemma drop_closing: "drop (2 + length end_document) closing = ''\<newline>''"
  by (simp add: closing_def end_document_def)

lemma closing_nonempty: "closing \<noteq> []"
  by (simp add: closing_def)

lemma marker_ok_closed:
  assumes "\<not> str_includes m end_document"
  shows "marker_ok (m @ closing)" and "count_occ end_document (m @ closing) = 1"
    and "last_occurrence (m @ closing) end_document = Some (length m + 2)"
    and "includeRefs (m @ closing) = includeRefs m"
proof -
  have c0: "count_occ end_document m = 0"
    using assms by (simp add: count_occ_zero end_document_nonempty)
  have "count_occ end_document (m @ closing) = count_occ end_document m + count_occ end_document closing"
    using hd_closing newline_not_in_marker by (intro count_occ_append end_document_nonempty) simp
  with c0 show c1: "count_occ end_document (m @ closing) = 1" by (simp add: count_occ_closing)
  show lo: "last_occurrence (m @ closing) end_document = Some (length m + 2)"
    using last_occurrence_closing by (rule last_occurrence_append)
  have "drop (length m + 2 + length end_document) (m @ closing) = ''\<newline>''"
    using drop_closing by (simp add: add.assoc)
  then show "marker_ok (m @ closing)"
    using c1 lo by (simp add: marker_ok_def is_space_def)
  show "includeRefs (m @ closing) = includeRefs m"
    using hd_closing boundary_newline by (simp add: includeRefs_append includeRefs_closing)
qed

lemma initialContent_facts:
  "last_occurrence initialContent end_document = None" "includeRefs initialContent = []"
  by code_simp+

lemma filter_update_png:
  "suffix ''.png'' k \<Longrightarrow>
   filter (\<lambda>(n, d). \<not> suffix ''.png'' n) (AList.update k v al) =
   filter (\<lambda>(n, d). \<not> suffix ''.png'' n) al"
  by (induction al) auto

lemma filter_update_doc:
  "\<not> suffix ''.png'' k \<Longrightarrow>
   filter (\<lambda>(n, d). \<not> suffix ''.png'' n) (AList.update k v al) =
   AList.update k v (filter (\<lambda>(n, d). \<not> suffix ''.png'' n) al)"
  by (induction al) auto

lemma map_of_filter_doc:
  "\<not> suffix ''.png'' k \<Longrightarrow> map_of (filter (\<lambda>(n, d). \<not> suffix ''.png'' n) al) k = map_of al k"
  by (induction al) auto

lemma docs_log [simp]: "docs (log ev w) = docs w"
  by (simp add: docs_def)

lemma docs_writeFile_png [simp]: "docs (writeFile (stem @ ''.png'') buf w) = docs w"
proof -
  have "suffix ''.png'' (stem @ ''.png'')" by (simp add: suffix_def)
  then show ?thesis by (simp add: docs_def filter_update_png)
qed

lemma docs_writeFile:
  "\<not> suffix ''.png'' name \<Longrightarrow> docs (writeFile name data w) = AList.update name data (docs w)"
  by (simp add: docs_def filter_update_doc)

lemma readFile_docs: "\<not> suffix ''.png'' name \<Longrightarrow> readFile name w = map_of (docs w) name"
  by (simp add: docs_def readFile_def map_of_filter_doc)

lemma not_png_main: "\<not> suffix ''.png'' MAIN_TEX"
  by (simp add: MAIN_TEX_def suffix_def)

lemma not_png_tex: "suffix ''.tex'' f \<Longrightarrow> \<not> suffix ''.png'' f"
proof
  assume "suffix ''.tex'' f" "suffix ''.png'' f"
  then obtain x y where "f = x @ ''.tex''" "f = y @ ''.png''" by (auto simp: suffix_def)
  then have "last (x @ ''.tex'') = last (y @ ''.png'')" by simp
  then show False by simp
qed

lemma not_png_page: "\<not> suffix ''.png'' (pageTexName p)"
  by (rule not_png_tex) (simp add: pageTexName_def suffix_def)

lemma not_png_page_tex: "is_page_tex f \<Longrightarrow> \<not> suffix ''.png'' f"
  using not_png_tex page_tex_suffix by blast

lemma main_not_page: "pageTexName p \<noteq> MAIN_TEX"
  using is_page_tex_pageTexName not_page_tex_main by metis

lemma page_names_docs:
  "filter is_page_tex (readdir w) = filter is_page_tex (map fst (docs w))"
proof -
  have "filter is_page_tex (map fst al) = filter is_page_tex (map fst (filter (\<lambda>(n, d). \<not> suffix ''.png'' n) al))"
    for al :: "(string \<times> string) list"
    by (induction al) (auto dest: not_png_page_tex)
  then show ?thesis by (simp add: readdir_def docs_def)
qed

lemma lastPage_docs:
  "lastPage w = Max (insert 0 (page_index ` set (filter is_page_tex (map fst (docs w)))))"
proof -
  have "{f \<in> set (readdir w). is_page_tex f} = set (filter is_page_tex (readdir w))" by auto
  then show ?thesis by (simp only: lastPage_def page_names_docs)
qed

lemma page_index_le_lastPage:
  "f \<in> set (readdir w) \<Longrightarrow> is_page_tex f \<Longrightarrow> page_index f \<le> lastPage w"
  unfolding lastPage_def by (intro Max_ge) auto

lemma getLast_lastPage:
  assumes "lastPage w < 2 ^ 53"
  shows "getLastProcessedPageByTex (readdir w) = Inr (enat (lastPage w))"
proof -
  have "\<forall>f\<in>set (readdir w). is_page_tex f \<longrightarrow> page_index f < 2 ^ 53"
    using assms page_index_le_lastPage le_less_trans by blast
  then show ?thesis unfolding lastPage_def by (rule getLast_exact)
qed

lemma getLast_lastPage_large:
  assumes "2 ^ 53 \<le> lastPage w"
  shows "\<exists>s. getLastProcessedPageByTex (readdir w) = Inr s \<and> enat (2 ^ 53) \<le> s"
proof -
  let ?S = "insert 0 (page_index ` {f \<in> set (readdir w). is_page_tex f})"
  have "Max ?S \<in> ?S" by (intro Max_in) auto
  moreover have "Max ?S \<noteq> 0"
  proof
    assume "Max ?S = 0"
    with assms show False by (simp add: lastPage_def)
  qed
  ultimately obtain f where f: "f \<in> set (readdir w)" "is_page_tex f" "page_index f = lastPage w"
    unfolding lastPage_def by auto
  from f(1,2) show ?thesis by (rule getLast_large) (use f(3) assms in simp)
qed

lemma lastPage_cong: "docs w' = docs w \<Longrightarrow> lastPage w' = lastPage w"
  by (simp add: lastPage_docs)

text \<open>Effects of one attempt\<close>

lemma getImageBuffer_docs: "getImageBuffer cfg e q w = (r, w') \<Longrightarrow> docs w' = docs w"
  by (auto simp: getImageBuffer_def split: if_splits convert_outcome.splits)

lemma contextWindow_docs:
  assumes "contextWindow cfg e p w = (r, w')"
  shows "docs w' = docs w"
proof -
  obtain r1 w1 where g1: "getImageBuffer cfg e (p - 1) w = (r1, w1)" by fastforce
  obtain r2 w2 where g2: "getImageBuffer cfg e p w1 = (r2, w2)" by fastforce
  obtain r3 w3 where g3: "getImageBuffer cfg e (p + 1) w2 = (r3, w3)" by fastforce
  have d: "docs w1 = docs w" "docs w2 = docs w" "docs w3 = docs w"
    using getImageBuffer_docs [OF g1] getImageBuffer_docs [OF g2] getImageBuffer_docs [OF g3] by simp_all
  have "w' = w1 \<or> w' = w2 \<or> w' = w3"
    using assms g1 g2 g3 by (auto simp: contextWindow_def split: sum.splits)
  with d show ?thesis by auto
qed

lemma touched_refl [simp]: "touched p d d"
  by (simp add: touched_def)

lemma touched_trans: "touched p d d' \<Longrightarrow> touched p d' d'' \<Longrightarrow> touched p d d''"
  by (auto simp: touched_def)

lemma touched_map_of:
  "touched p d d' \<Longrightarrow> k \<noteq> pageTexName p \<Longrightarrow> map_of d' k = map_of d k"
  by (auto simp: touched_def update_conv')

lemma touched_main: "touched p d d' \<Longrightarrow> map_of d' MAIN_TEX = map_of d MAIN_TEX"
  using main_not_page [of p] by (auto intro: touched_map_of)

lemma touched_keeps: "touched p d d' \<Longrightarrow> map_of d k \<noteq> None \<Longrightarrow> map_of d' k \<noteq> None"
  by (auto simp: touched_def update_conv')

lemma recorded_docs_touched: "touched p d d' \<Longrightarrow> recorded_docs p frag d' = recorded_docs p frag d"
  using main_not_page [of p] by (auto simp: touched_def recorded_docs_def update_conv')

lemma fs_writeFile_cases:
  assumes "fs_writeFile cfg name c w = (r, w1)"
  shows "(r \<noteq> None \<and> w1 = w \<and> (\<forall>frag. c \<noteq> JString frag) \<and> (\<forall>chunks. c \<noteq> JArray chunks)) \<or>
         (\<exists>frag. w1 = writeFile name frag w \<and> (r = None \<and> c = JString frag \<or> (\<exists>chunks. c = JArray chunks)))"
  using assms by (cases c) (auto simp: fs_writeFile_def split: prod.splits)

lemma recordPage_rejected:
  assumes "\<forall>frag. c \<noteq> JString frag" "\<forall>chunks. c \<noteq> JArray chunks"
  shows "recordPage cfg p c w = (Inl (invalid_data cfg c), w)"
  using assms by (cases c) (simp_all add: recordPage_def fs_writeFile_def)

lemma recordPage_string:
  assumes "readFile MAIN_TEX w = Some m"
  shows "recordPage cfg p (JString frag) w =
     (Inr (), log (Recorded p)
        (writeFile MAIN_TEX (updateMainTex p m) (writeFile (pageTexName p) frag w)))"
  using assms main_not_page [of p] by (simp add: recordPage_def fs_writeFile_def)

lemma recordPage_effect:
  assumes "recordPage cfg p c w = (r, w')" "map_of (docs w) MAIN_TEX = Some m"
  shows "(case r of
            Inl err \<Rightarrow> touched p (docs w) (docs w') \<and> events w' = events w
          | Inr u \<Rightarrow> (\<exists>frag. docs w' = recorded_docs p frag (docs w)) \<and>
                       events w' = events w @ [Recorded p])"
proof -
  obtain e w1 where fw: "fs_writeFile cfg (pageTexName p) c w = (e, w1)" by fastforce
  from fs_writeFile_cases [OF fw]
  consider (rej) "e \<noteq> None" "w1 = w" | (wr) frag where "w1 = writeFile (pageTexName p) frag w"
    by blast
  then show ?thesis
  proof cases
    case rej
    then obtain err where "e = Some err" by auto
    with assms(1) fw rej(2) have "r = Inl err" "w' = w" by (auto simp: recordPage_def)
    then show ?thesis by simp
  next
    case wr
    have d1: "docs w1 = AList.update (pageTexName p) frag (docs w)"
      unfolding wr by (simp add: docs_writeFile not_png_page)
    have m1: "readFile MAIN_TEX w1 = Some m"
      unfolding wr using assms(2) main_not_page [of p] by (simp add: readFile_docs not_png_main)
    show ?thesis
    proof (cases e)
      case (Some err)
      with assms(1) fw have "r = Inl err" "w' = w1" by (auto simp: recordPage_def)
      with d1 wr show ?thesis by (auto simp: touched_def)
    next
      case None
      with assms(1) fw m1 have "r = Inr ()"
        "w' = log (Recorded p) (writeFile MAIN_TEX (updateMainTex p m) w1)"
        by (auto simp: recordPage_def)
      moreover have "docs (log (Recorded p) (writeFile MAIN_TEX (updateMainTex p m) w1))
          = recorded_docs p frag (docs w)"
        using assms(2) by (simp add: recorded_docs_def docs_writeFile not_png_main d1)
      ultimately show ?thesis unfolding wr by auto
    qed
  qed
qed

lemma attemptOnce_effect:
  assumes "attemptOnce cfg e p w = (r, w')" "1 \<le> p" "p \<le> totalPages cfg"
    and "map_of (docs w) MAIN_TEX = Some m"
  shows "\<exists>qs. prefix qs (requested cfg p) \<and>
     (case r of
        Inl err \<Rightarrow> touched p (docs w) (docs w') \<and> events w' = events w @ map Convert qs
      | Inr u \<Rightarrow> (\<exists>text. docs w' = recorded_docs p text (docs w)) \<and>
                   events w' = events w @ map Convert qs @ [Recorded p])"
proof -
  obtain rw w3 where cw: "contextWindow cfg e p w = (rw, w3)" by fastforce
  from contextWindow_events [OF cw assms(2,3)] obtain qs where
    qs: "events w3 = events w @ map Convert qs" "prefix qs (requested cfg p)" by blast
  have d3: "docs w3 = docs w" using cw by (rule contextWindow_docs)
  show ?thesis
  proof (cases rw)
    case (Inl err)
    with assms(1) cw have "r = Inl err" "w' = w3" by (auto simp: attemptOnce_def)
    with qs d3 show ?thesis by (intro exI [of _ qs]) simp
  next
    case (Inr win)
    obtain prevBuffer currBuffer nextBuffer where win: "win = (prevBuffer, currBuffer, nextBuffer)"
      by (cases win) auto
    show ?thesis
    proof (cases "currBuffer = None")
      case True
      with assms(1) cw Inr win have "\<exists>err. r = Inl err" "w' = w3" by (auto simp: attemptOnce_def)
      with qs d3 show ?thesis by (intro exI [of _ qs]) auto
    next
      case False
      show ?thesis
      proof (cases "processPageWithGemini cfg e [prevBuffer, currBuffer, nextBuffer]")
        case (Inl err)
        then have "\<not> isQuotaError err" by (rule processPageWithGemini_not_quota)
        with assms(1) cw Inr win False Inl have "r = Inl err" "w' = w3"
          by (auto simp: attemptOnce_def)
        with qs d3 show ?thesis by (intro exI [of _ qs]) auto
      next
        case (Inr c)
        with assms(1) cw \<open>rw = Inr win\<close> win False
        have rp: "recordPage cfg p c w3 = (r, w')" by (auto simp: attemptOnce_def)
        from recordPage_effect [OF rp] assms(4) d3 qs show ?thesis
          by (intro exI [of _ qs]) (auto split: sum.splits)
      qed
    qed
  qed
qed

lemma retryLoop_rule:
  assumes run: "retryLoop cfg p a envs w = Some (ok, w', envs')"
    and init: "I a w"
    and uncounted: "\<And>a w e err w1. \<lbrakk>a \<le> MAX_RETRIES; I a w;
        attemptOnce cfg e p (log (Attempt p a) w) = (Inl err, w1); isQuotaError err\<rbrakk> \<Longrightarrow> I a w1"
    and counted: "\<And>a w e err w1. \<lbrakk>a \<le> MAX_RETRIES; I a w;
        attemptOnce cfg e p (log (Attempt p a) w) = (Inl err, w1); \<not> isQuotaError err\<rbrakk>
        \<Longrightarrow> I (a + 1) (log (Failed p a err) w1)"
    and success: "\<And>a w e u w1. \<lbrakk>a \<le> MAX_RETRIES; I a w;
        attemptOnce cfg e p (log (Attempt p a) w) = (Inr u, w1)\<rbrakk> \<Longrightarrow> Q True w1"
    and exhausted: "\<And>a w. \<lbrakk>MAX_RETRIES < a; I a w\<rbrakk> \<Longrightarrow> Q False w"
  shows "Q ok w'"
  using run init
proof (induction envs arbitrary: a w)
  case Nil
  then show ?case using exhausted [of a w] by (auto split: if_splits)
next
  case (Cons e es)
  show ?case
  proof (cases "a \<le> MAX_RETRIES")
    case False
    with Cons.prems show ?thesis using exhausted [of a w] by auto
  next
    case True
    obtain r w1 where at: "attemptOnce cfg e p (log (Attempt p a) w) = (r, w1)" by fastforce
    show ?thesis
    proof (cases r)
      case (Inr u)
      with Cons.prems(1) True at have "ok = True" "w' = w1" by auto
      with success [OF True Cons.prems(2)] at Inr show ?thesis by auto
    next
      case (Inl err)
      show ?thesis
      proof (cases "isQuotaError err")
        case q: True
        with Cons.prems(1) True at Inl have "retryLoop cfg p a es w1 = Some (ok, w', envs')" by simp
        moreover have "I a w1" using uncounted [OF True Cons.prems(2)] at Inl q by auto
        ultimately show ?thesis by (rule Cons.IH)
      next
        case q: False
        with Cons.prems(1) True at Inl
        have "retryLoop cfg p (a + 1) es (log (Failed p a err) w1) = Some (ok, w', envs')" by simp
        moreover have "I (a + 1) (log (Failed p a err) w1)"
          using counted [OF True Cons.prems(2)] at Inl q by auto
        ultimately show ?thesis by (rule Cons.IH)
      qed
    qed
  qed
qed

lemma pageLoop_rule:
  assumes run: "pageLoop cfg i envs w = Some w'"
    and init: "I i w"
    and page_ok: "\<And>i w envs w1 envs'. \<lbrakk>i < totalPages cfg; I i w;
        retryLoop cfg (i + 1) 1 envs (log (Begin (i + 1)) w) = Some (True, w1, envs')\<rbrakk> \<Longrightarrow> I (i + 1) w1"
    and page_failed: "\<And>i w envs w1 envs'. \<lbrakk>i < totalPages cfg; I i w;
        retryLoop cfg (i + 1) 1 envs (log (Begin (i + 1)) w) = Some (False, w1, envs')\<rbrakk>
        \<Longrightarrow> Q (log (Notify (failMessage (i + 1))) w1)"
    and finished: "\<And>i w. \<lbrakk>\<not> i < totalPages cfg; I i w\<rbrakk> \<Longrightarrow> Q w"
  shows "Q w'"
  using run init
proof (induction n \<equiv> "totalPages cfg - i" arbitrary: i envs w)
  case 0
  then have ni: "\<not> i < totalPages cfg" by simp
  with "0.prems"(1) have "w' = w" by (simp add: pageLoop.simps)
  with finished [OF ni "0.prems"(2)] show ?case by simp
next
  case (Suc n)
  then have lt: "i < totalPages cfg" by simp
  then obtain ok w1 envs1 where
    rl: "retryLoop cfg (i + 1) 1 envs (log (Begin (i + 1)) w) = Some (ok, w1, envs1)"
    using Suc.prems(1) by (subst (asm) pageLoop.simps) (auto split: option.splits)
  show ?case
  proof (cases ok)
    case False
    with Suc.prems(1) lt rl have "w' = log (Notify (failMessage (i + 1))) w1"
      by (subst (asm) pageLoop.simps) simp
    with page_failed [OF lt Suc.prems(2)] rl False show ?thesis by simp
  next
    case True
    with Suc.prems(1) lt rl have "pageLoop cfg (i + 1) envs1 w1 = Some w'"
      by (subst (asm) pageLoop.simps) simp
    moreover have "I (i + 1) w1" using page_ok [OF lt Suc.prems(2)] rl True by simp
    moreover have "n = totalPages cfg - (i + 1)" using Suc.hyps(2) by simp
    ultimately show ?thesis using Suc.hyps(1) by blast
  qed
qed

lemma failures_append: "failures p (xs @ ys) = failures p xs @ failures p ys"
  by (induction p xs rule: failures.induct) auto

lemma failures_Convert [simp]: "failures p (map Convert qs) = []"
  by (induction qs) auto

lemma attempt_event_Convert [simp]: "list_all (attempt_event p) (map Convert qs)"
  by (induction qs) auto

lemma Recorded_not_Convert [simp]: "Recorded p \<notin> set (map Convert qs)"
  by auto

lemma retryLoop_effect:
  assumes run: "retryLoop cfg p a envs w = Some (ok, w', envs')"
    and p: "1 \<le> p" "p \<le> totalPages cfg"
    and m: "map_of (docs w) MAIN_TEX = Some m"
    and a: "a \<le> MAX_RETRIES"
  shows "\<exists>evs. events w' = events w @ evs \<and> list_all (attempt_event p) evs \<and>
      (if ok
       then (\<exists>frag. docs w' = recorded_docs p frag (docs w)) \<and>
            (\<exists>n\<le>MAX_RETRIES. failures p evs = [a..<n]) \<and>
            (\<exists>pre. evs = pre @ [Recorded p] \<and> Recorded p \<notin> set pre)
       else touched p (docs w) (docs w') \<and> failures p evs = [a..<MAX_RETRIES + 1] \<and>
            Recorded p \<notin> set evs \<and>
            (\<exists>pre err. evs = pre @ [Failed p MAX_RETRIES err]))"
    (is "?Q ok w'")
proof -
  define I where "I = (\<lambda>a' w1. touched p (docs w) (docs w1) \<and> a \<le> a' \<and>
     (\<exists>evs. events w1 = events w @ evs \<and> list_all (attempt_event p) evs \<and>
        failures p evs = [a..<a'] \<and> Recorded p \<notin> set evs \<and>
        (MAX_RETRIES < a' \<longrightarrow> a' = MAX_RETRIES + 1 \<and> (\<exists>pre err. evs = pre @ [Failed p MAX_RETRIES err]))))"
  show ?thesis
  proof (rule retryLoop_rule [where I = I and Q = ?Q, OF run])
    show "I a w" using a by (simp add: I_def)
  next
    fix a' w1 e err w2
    assume h: "a' \<le> MAX_RETRIES" "I a' w1"
      "attemptOnce cfg e p (log (Attempt p a') w1) = (Inl err, w2)" "isQuotaError err"
    from h(2) obtain evs where evs: "touched p (docs w) (docs w1)" "a \<le> a'" "events w1 = events w @ evs"
      "list_all (attempt_event p) evs" "failures p evs = [a..<a']" "Recorded p \<notin> set evs"
      unfolding I_def by blast
    have "map_of (docs (log (Attempt p a') w1)) MAIN_TEX = Some m"
      using touched_main [OF evs(1)] m by simp
    from attemptOnce_effect [OF h(3) p this] obtain qs where
      qs: "touched p (docs w1) (docs w2)" "events w2 = events w1 @ [Attempt p a'] @ map Convert qs" by auto
    have t2: "touched p (docs w) (docs w2)" using evs(1) qs(1) by (rule touched_trans)
    show "I a' w2"
      unfolding I_def using evs(2-) qs(2) t2 h(1)
      by (auto intro!: exI [of _ "evs @ [Attempt p a'] @ map Convert qs"] simp: failures_append)
  next
    fix a' w1 e err w2
    assume h: "a' \<le> MAX_RETRIES" "I a' w1"
      "attemptOnce cfg e p (log (Attempt p a') w1) = (Inl err, w2)" "\<not> isQuotaError err"
    from h(2) obtain evs where evs: "touched p (docs w) (docs w1)" "a \<le> a'" "events w1 = events w @ evs"
      "list_all (attempt_event p) evs" "failures p evs = [a..<a']" "Recorded p \<notin> set evs"
      unfolding I_def by blast
    have "map_of (docs (log (Attempt p a') w1)) MAIN_TEX = Some m"
      using touched_main [OF evs(1)] m by simp
    from attemptOnce_effect [OF h(3) p this] obtain qs where
      qs: "touched p (docs w1) (docs w2)" "events w2 = events w1 @ [Attempt p a'] @ map Convert qs" by auto
    have t2: "touched p (docs w) (docs w2)" using evs(1) qs(1) by (rule touched_trans)
    let ?evs = "evs @ [Attempt p a'] @ map Convert qs @ [Failed p a' err]"
    have "events (log (Failed p a' err) w2) = events w @ ?evs" using evs(3) qs(2) by simp
    moreover have "list_all (attempt_event p) ?evs" using evs(4) h(4) by simp
    moreover have "failures p ?evs = [a..<a' + 1]" using evs(2,5) by (simp add: failures_append)
    moreover have "Recorded p \<notin> set ?evs" using evs(6) by auto
    moreover have "MAX_RETRIES < a' + 1 \<longrightarrow> a' + 1 = MAX_RETRIES + 1 \<and>
        (\<exists>pre err'. ?evs = pre @ [Failed p MAX_RETRIES err'])"
      using h(1) by (auto intro!: exI [of _ "evs @ [Attempt p a'] @ map Convert qs"])
    ultimately show "I (a' + 1) (log (Failed p a' err) w2)"
      unfolding I_def using evs(2) t2 by (intro conjI exI [of _ ?evs]) simp_all
  next
    fix a' w1 e u w2
    assume h: "a' \<le> MAX_RETRIES" "I a' w1"
      "attemptOnce cfg e p (log (Attempt p a') w1) = (Inr u, w2)"
    from h(2) obtain evs where evs: "touched p (docs w) (docs w1)" "a \<le> a'" "events w1 = events w @ evs"
      "list_all (attempt_event p) evs" "failures p evs = [a..<a']" "Recorded p \<notin> set evs"
      unfolding I_def by blast
    have "map_of (docs (log (Attempt p a') w1)) MAIN_TEX = Some m"
      using touched_main [OF evs(1)] m by simp
    from attemptOnce_effect [OF h(3) p this] obtain qs frag where
      qs: "docs w2 = recorded_docs p frag (docs w1)"
        "events w2 = events w1 @ [Attempt p a'] @ map Convert qs @ [Recorded p]" by auto
    let ?pre = "evs @ [Attempt p a'] @ map Convert qs"
    have "events w2 = events w @ ?pre @ [Recorded p]" using evs(3) qs(2) by simp
    moreover have "list_all (attempt_event p) (?pre @ [Recorded p])" using evs(4) by simp
    moreover have "failures p (?pre @ [Recorded p]) = [a..<a']" using evs(5) by (simp add: failures_append)
    moreover have "Recorded p \<notin> set ?pre" using evs(6) by auto
    moreover have "docs w2 = recorded_docs p frag (docs w)"
      using qs(1) recorded_docs_touched [OF evs(1)] by simp
    ultimately show "?Q True w2"
      using h(1) by (intro exI [of _ "?pre @ [Recorded p]"]) auto
  next
    fix a' w1
    assume h: "MAX_RETRIES < a'" "I a' w1"
    then show "?Q False w1" unfolding I_def by auto
  qed
qed

lemma failures_mem: "Failed p k err \<in> set evs \<Longrightarrow> k \<in> set (failures p evs)"
  by (induction p evs rule: failures.induct) auto

lemma failures_other: "list_all (attempt_event q) evs \<Longrightarrow> p \<noteq> q \<Longrightarrow> failures p evs = []"
  by (induction p evs rule: failures.induct) auto

lemma failures_above: "list_all (run_event lo hi) evs \<Longrightarrow> hi < p \<Longrightarrow> failures p evs = []"
  by (induction p evs rule: failures.induct) auto

lemma run_event_mono: "run_event lo hi ev \<Longrightarrow> hi \<le> hi' \<Longrightarrow> run_event lo hi' ev"
  by (cases ev) auto

lemma attempt_run_event: "attempt_event p ev \<Longrightarrow> lo < p \<Longrightarrow> p \<le> hi \<Longrightarrow> run_event lo hi ev"
  by (cases ev) auto

lemma attempt_event_no_Notify: "list_all (attempt_event q) evs \<Longrightarrow> Notify msg \<notin> set evs"
  by (auto simp: list_all_iff)

lemma attempt_event_Failed: "list_all (attempt_event q) evs \<Longrightarrow> Failed p k err \<in> set evs \<Longrightarrow> p = q"
  by (auto simp: list_all_iff)

lemma map_of_recorded_docs:
  "map_of d k \<noteq> None \<or> k = pageTexName p \<Longrightarrow> map_of (recorded_docs p frag d) k \<noteq> None"
  by (auto simp: recorded_docs_def update_conv')

lemma map_of_recorded_docs_main:
  "map_of (recorded_docs p frag d) MAIN_TEX = Some (updateMainTex p (the (map_of d MAIN_TEX)))"
  by (simp add: recorded_docs_def update_conv')

lemma upt_max_notin: "n \<le> k \<Longrightarrow> k \<notin> set [1..<n]"
  by simp

lemma pageLoop_events:
  assumes run: "pageLoop cfg i envs w = Some w'"
    and m: "map_of (docs w) MAIN_TEX \<noteq> None"
  shows "\<exists>evs. events w' = events w @ evs \<and>
      list_all (run_event i (totalPages cfg)) evs \<and>
      (if i < totalPages cfg then \<exists>rest. evs = Begin (i + 1) # rest else evs = []) \<and>
      (\<forall>p. \<exists>n\<le>MAX_RETRIES + 1. failures p evs = [1..<n]) \<and>
      halted evs \<and>
      (\<forall>q. Recorded q \<in> set evs \<longrightarrow> map_of (docs w') (pageTexName q) \<noteq> None) \<and>
      map_of (docs w') MAIN_TEX \<noteq> None"
    (is "?Q w'")
proof -
  define I where "I = (\<lambda>j w1. i \<le> j \<and> j \<le> max i (totalPages cfg) \<and> map_of (docs w1) MAIN_TEX \<noteq> None \<and>
     (\<exists>evs. events w1 = events w @ evs \<and> list_all (run_event i j) evs \<and>
        (if i < j then \<exists>rest. evs = Begin (i + 1) # rest else evs = []) \<and>
        (\<forall>p. \<exists>n\<le>MAX_RETRIES. failures p evs = [1..<n]) \<and>
        (\<forall>msg. Notify msg \<notin> set evs) \<and>
        (\<forall>q. Recorded q \<in> set evs \<longrightarrow> map_of (docs w1) (pageTexName q) \<noteq> None)))"
  show ?thesis
  proof (rule pageLoop_rule [where I = I and Q = ?Q, OF run])
    show "I i w" using m by (auto simp: I_def intro: exI [of _ 0])
  next
    fix j w1 envs1 w2 envs2
    assume h: "j < totalPages cfg" "I j w1"
      "retryLoop cfg (j + 1) 1 envs1 (log (Begin (j + 1)) w1) = Some (True, w2, envs2)"
    from h(2) obtain evs where evs: "i \<le> j" "map_of (docs w1) MAIN_TEX \<noteq> None"
      "events w1 = events w @ evs" "list_all (run_event i j) evs"
      "if i < j then \<exists>rest. evs = Begin (i + 1) # rest else evs = []"
      "\<forall>p. \<exists>n\<le>MAX_RETRIES. failures p evs = [1..<n]" "\<forall>msg. Notify msg \<notin> set evs"
      "\<forall>q. Recorded q \<in> set evs \<longrightarrow> map_of (docs w1) (pageTexName q) \<noteq> None"
      unfolding I_def by blast
    from evs(2) obtain m1 where m1: "map_of (docs (log (Begin (j + 1)) w1)) MAIN_TEX = Some m1" by auto
    have p: "1 \<le> j + 1" "j + 1 \<le> totalPages cfg" using h(1) by simp_all
    have a1: "(1::nat) \<le> MAX_RETRIES" by (simp add: MAX_RETRIES_def)
    from retryLoop_effect [OF h(3) p m1 a1] obtain er frag n where
      er: "events w2 = events w1 @ [Begin (j + 1)] @ er" "list_all (attempt_event (j + 1)) er"
        "docs w2 = recorded_docs (j + 1) frag (docs w1)" "n \<le> MAX_RETRIES"
        "failures (j + 1) er = [1..<n]"
      by auto
    let ?evs = "evs @ [Begin (j + 1)] @ er"
    have e1: "events w2 = events w @ ?evs" using evs(3) er(1) by simp
    have e2: "list_all (run_event i (j + 1)) ?evs"
      using evs(1,4) er(2) by (auto simp: list_all_iff intro: run_event_mono attempt_run_event)
    have e3: "\<exists>rest. ?evs = Begin (i + 1) # rest"
      using evs(5) by (cases "i < j") (use evs(1) in auto)
    have e4: "\<exists>n\<le>MAX_RETRIES. failures p ?evs = [1..<n]" for p
    proof (cases "p = j + 1")
      case True
      then have "failures p evs = []" using evs(4) by (intro failures_above) auto
      with True er(4,5) show ?thesis by (auto simp: failures_append)
    next
      case False
      then have "failures p er = []" using er(2) by (intro failures_other)
      with evs(6) show ?thesis by (simp add: failures_append)
    qed
    have e5: "\<forall>msg. Notify msg \<notin> set ?evs"
      using evs(7) attempt_event_no_Notify [OF er(2)] by auto
    have e6: "\<forall>q. Recorded q \<in> set ?evs \<longrightarrow> map_of (docs w2) (pageTexName q) \<noteq> None"
    proof (intro allI impI)
      fix q assume "Recorded q \<in> set ?evs"
      then consider "Recorded q \<in> set evs" | "Recorded q \<in> set er" by auto
      then show "map_of (docs w2) (pageTexName q) \<noteq> None"
      proof cases
        case 1
        with evs(8) show ?thesis unfolding er(3) by (intro map_of_recorded_docs) simp
      next
        case 2
        with er(2) have "q = j + 1" by (auto simp: list_all_iff)
        then show ?thesis unfolding er(3) by (intro map_of_recorded_docs) simp
      qed
    qed
    have e7: "map_of (docs w2) MAIN_TEX \<noteq> None"
      unfolding er(3) by (simp add: map_of_recorded_docs_main)
    show "I (j + 1) w2"
      unfolding I_def using evs(1) h(1) e1 e2 e3 e4 e5 e6 e7
      by (intro conjI exI [of _ ?evs]) auto
  next
    fix j w1 envs1 w2 envs2
    assume h: "j < totalPages cfg" "I j w1"
      "retryLoop cfg (j + 1) 1 envs1 (log (Begin (j + 1)) w1) = Some (False, w2, envs2)"
    from h(2) obtain evs where evs: "i \<le> j" "map_of (docs w1) MAIN_TEX \<noteq> None"
      "events w1 = events w @ evs" "list_all (run_event i j) evs"
      "if i < j then \<exists>rest. evs = Begin (i + 1) # rest else evs = []"
      "\<forall>p. \<exists>n\<le>MAX_RETRIES. failures p evs = [1..<n]" "\<forall>msg. Notify msg \<notin> set evs"
      "\<forall>q. Recorded q \<in> set evs \<longrightarrow> map_of (docs w1) (pageTexName q) \<noteq> None"
      unfolding I_def by blast
    from evs(2) obtain m1 where m1: "map_of (docs (log (Begin (j + 1)) w1)) MAIN_TEX = Some m1" by auto
    have p: "1 \<le> j + 1" "j + 1 \<le> totalPages cfg" using h(1) by simp_all
    have a1: "(1::nat) \<le> MAX_RETRIES" by (simp add: MAX_RETRIES_def)
    from retryLoop_effect [OF h(3) p m1 a1] obtain er pre err where
      er: "events w2 = events w1 @ [Begin (j + 1)] @ er" "list_all (attempt_event (j + 1)) er"
        "touched (j + 1) (docs w1) (docs w2)" "failures (j + 1) er = [1..<MAX_RETRIES + 1]"
        "Recorded (j + 1) \<notin> set er" "er = pre @ [Failed (j + 1) MAX_RETRIES err]"
      by auto
    let ?note = "Notify (failMessage (j + 1))"
    let ?evs = "evs @ [Begin (j + 1)] @ er @ [?note]"
    let ?w' = "log ?note w2"
    have e1: "events ?w' = events w @ ?evs" using evs(3) er(1) by simp
    have e2: "list_all (run_event i (totalPages cfg)) ?evs"
      using evs(1,4) er(2) h(1) by (auto simp: list_all_iff intro: run_event_mono attempt_run_event)
    have e3: "\<exists>rest. ?evs = Begin (i + 1) # rest"
      using evs(5) by (cases "i < j") (use evs(1) in auto)
    have e4: "\<exists>n\<le>MAX_RETRIES + 1. failures p ?evs = [1..<n]" for p
    proof (cases "p = j + 1")
      case True
      then have "failures p evs = []" using evs(4) by (intro failures_above) auto
      with True er(4) show ?thesis by (auto simp: failures_append)
    next
      case False
      then have "failures p er = []" using er(2) by (intro failures_other)
      moreover obtain n where "n \<le> MAX_RETRIES" "failures p evs = [1..<n]" using evs(6) by blast
      ultimately show ?thesis by (auto simp: failures_append intro!: exI [of _ n])
    qed
    have "[1..<Suc MAX_RETRIES] = [1..<MAX_RETRIES] @ [MAX_RETRIES]"
      by (rule upt_Suc_append) (simp add: MAX_RETRIES_def)
    then have "[1..<MAX_RETRIES + 1] = [1..<MAX_RETRIES] @ [MAX_RETRIES]"
      by (simp only: Suc_eq_plus1)
    moreover have "failures (j + 1) er = failures (j + 1) pre @ [MAX_RETRIES]"
      unfolding er(6) by (simp add: failures_append)
    ultimately have pre_fail: "failures (j + 1) pre = [1..<MAX_RETRIES]"
      using er(4) by simp
    have last_only: "p = j + 1 \<and> err' = err \<and> Failed p MAX_RETRIES err' \<notin> set evs \<and> Failed p MAX_RETRIES err' \<notin> set pre"
      if "Failed p MAX_RETRIES err' \<in> set ?evs" for p err'
    proof -
      have ne: "Failed p MAX_RETRIES err' \<notin> set evs"
      proof
        assume "Failed p MAX_RETRIES err' \<in> set evs"
        then have "MAX_RETRIES \<in> set (failures p evs)" by (rule failures_mem)
        moreover obtain n where "n \<le> MAX_RETRIES" "failures p evs = [1..<n]" using evs(6) by blast
        ultimately show False by simp
      qed
      with that have in_er: "Failed p MAX_RETRIES err' \<in> set er" by auto
      then have pj: "p = j + 1" using er(2) by (rule attempt_event_Failed [rotated])
      have np: "Failed p MAX_RETRIES err' \<notin> set pre"
      proof
        assume "Failed p MAX_RETRIES err' \<in> set pre"
        then have "MAX_RETRIES \<in> set (failures p pre)" by (rule failures_mem)
        with pj pre_fail show False by simp
      qed
      with in_er have "err' = err" unfolding er(6) by auto
      with pj ne np show ?thesis by simp
    qed
    have e5: "halted ?evs"
      unfolding halted_def
    proof (intro conjI allI impI)
      fix p err' assume "Failed p MAX_RETRIES err' \<in> set ?evs"
      from last_only [OF this] have "p = j + 1" "err' = err" by simp_all
      then show "\<exists>pre'. ?evs = pre' @ [Failed p MAX_RETRIES err', Notify (failMessage p)]"
        unfolding er(6) by (intro exI [of _ "evs @ [Begin (j + 1)] @ pre"]) simp
    next
      fix msg assume "Notify msg \<in> set ?evs"
      then have "msg = failMessage (j + 1)"
        using evs(7) attempt_event_no_Notify [OF er(2)] by auto
      then show "\<exists>pre' p err'. ?evs = pre' @ [Failed p MAX_RETRIES err', Notify msg] \<and> msg = failMessage p"
        unfolding er(6) by (intro exI [of _ "evs @ [Begin (j + 1)] @ pre"] exI [of _ "j + 1"] exI [of _ err]) simp
    qed
    have e6: "\<forall>q. Recorded q \<in> set ?evs \<longrightarrow> map_of (docs ?w') (pageTexName q) \<noteq> None"
    proof (intro allI impI)
      fix q assume "Recorded q \<in> set ?evs"
      then consider "Recorded q \<in> set evs" | "Recorded q \<in> set er" by auto
      then show "map_of (docs ?w') (pageTexName q) \<noteq> None"
      proof cases
        case 1
        with evs(8) touched_keeps [OF er(3)] show ?thesis by simp
      next
        case 2
        with er(2) have "q = j + 1" by (auto simp: list_all_iff)
        with 2 er(5) show ?thesis by simp
      qed
    qed
    have e7: "map_of (docs ?w') MAIN_TEX \<noteq> None" using evs(2) touched_main [OF er(3)] by simp
    show "?Q ?w'"
      using e1 e2 e3 e4 e5 e6 e7 evs(1) h(1) by (intro exI [of _ ?evs]) auto
  next
    fix j w1
    assume h: "\<not> j < totalPages cfg" "I j w1"
    from h(2) obtain evs where evs: "i \<le> j" "j \<le> max i (totalPages cfg)"
      "map_of (docs w1) MAIN_TEX \<noteq> None"
      "events w1 = events w @ evs" "list_all (run_event i j) evs"
      "if i < j then \<exists>rest. evs = Begin (i + 1) # rest else evs = []"
      "\<forall>p. \<exists>n\<le>MAX_RETRIES. failures p evs = [1..<n]" "\<forall>msg. Notify msg \<notin> set evs"
      "\<forall>q. Recorded q \<in> set evs \<longrightarrow> map_of (docs w1) (pageTexName q) \<noteq> None"
      unfolding I_def by blast
    have "i < totalPages cfg \<Longrightarrow> j = totalPages cfg" using h(1) evs(1,2) by (auto simp: max_def split: if_splits)
    moreover have "\<not> i < totalPages cfg \<Longrightarrow> j = i" using h(1) evs(1,2) by (auto simp: max_def split: if_splits)
    moreover have "halted evs"
      unfolding halted_def
    proof (intro conjI allI impI)
      fix p err assume "Failed p MAX_RETRIES err \<in> set evs"
      then have "MAX_RETRIES \<in> set (failures p evs)" by (rule failures_mem)
      moreover obtain n where "n \<le> MAX_RETRIES" "failures p evs = [1..<n]" using evs(7) by blast
      ultimately show "\<exists>pre. evs = pre @ [Failed p MAX_RETRIES err, Notify (failMessage p)]" by simp
    next
      fix msg assume "Notify msg \<in> set evs"
      with evs(8) show "\<exists>pre p err. evs = pre @ [Failed p MAX_RETRIES err, Notify msg] \<and> msg = failMessage p"
        by simp
    qed
    moreover have "\<forall>p. \<exists>n\<le>MAX_RETRIES + 1. failures p evs = [1..<n]"
      using evs(7) by (meson le_SucI Suc_eq_plus1 le_trans le_add1)
    ultimately show "?Q w1"
      using evs(3,4,5,6,9) by (intro exI [of _ evs]) (auto simp: list_all_iff intro: run_event_mono)
  qed
qed

lemma readFile_main_docs: "readFile MAIN_TEX w = map_of (docs w) MAIN_TEX"
  by (rule readFile_docs) (rule not_png_main)

lemma readFile_page_docs: "readFile (pageTexName q) w = map_of (docs w) (pageTexName q)"
  by (rule readFile_docs) (rule not_png_page)

lemma keys_recorded_docs:
  "set (map fst (recorded_docs p frag d)) = insert MAIN_TEX (insert (pageTexName p) (set (map fst d)))"
  by (auto simp: recorded_docs_def dom_update)

lemma lastPage_recorded:
  assumes "docs w2 = recorded_docs p frag (docs w1)"
  shows "lastPage w2 = max (lastPage w1) p"
proof -
  let ?S = "set (filter is_page_tex (map fst (docs w1)))"
  have "set (filter is_page_tex (map fst (docs w2))) = insert (pageTexName p) ?S"
    unfolding assms using keys_recorded_docs [of p frag "docs w1"]
      is_page_tex_pageTexName [of p] not_page_tex_main by auto
  then have "lastPage w2 = Max (insert 0 (insert p (page_index ` ?S)))"
    by (simp add: lastPage_docs page_index_pageTexName insert_commute)
  also have "\<dots> = max p (Max (insert 0 (page_index ` ?S)))"
    by (subst insert_commute) (rule Max_insert, simp_all)
  finally show ?thesis by (simp add: lastPage_docs max.commute)
qed

lemma lastPage_update:
  assumes "docs w2 = AList.update (pageTexName p) frag (docs w1)"
  shows "lastPage w2 = max (lastPage w1) p"
proof -
  let ?S = "set (filter is_page_tex (map fst (docs w1)))"
  have "set (filter is_page_tex (map fst (docs w2))) = insert (pageTexName p) ?S"
    unfolding assms using is_page_tex_pageTexName [of p] by (auto simp: dom_update)
  then have "lastPage w2 = Max (insert 0 (insert p (page_index ` ?S)))"
    by (simp add: lastPage_docs page_index_pageTexName insert_commute)
  also have "\<dots> = max p (Max (insert 0 (page_index ` ?S)))"
    by (subst insert_commute) (rule Max_insert, simp_all)
  finally show ?thesis by (simp add: lastPage_docs max.commute)
qed

lemma lastPage_touched:
  assumes "touched p (docs w1) (docs w2)"
  shows "lastPage w1 \<le> lastPage w2"
proof -
  from assms consider "docs w2 = docs w1" | frag where "docs w2 = AList.update (pageTexName p) frag (docs w1)"
    unfolding touched_def by blast
  then show ?thesis
  proof cases
    case 1
    then show ?thesis using lastPage_cong [of w2 w1] by simp
  next
    case 2
    then show ?thesis using lastPage_update [of w2 p frag w1] by simp
  qed
qed

lemma map_of_recorded_other:
  "k \<noteq> MAIN_TEX \<Longrightarrow> k \<noteq> pageTexName p \<Longrightarrow> map_of (recorded_docs p frag d) k = map_of d k"
  by (simp add: recorded_docs_def update_conv')

lemma refs_before_marker:
  assumes "marker_ok m" "last_occurrence m end_document = Some idx"
  shows "includeRefs (drop idx m) = []" and "includeRefs (take idx m) = includeRefs m"
proof -
  note sp = marker_split [OF assms(2)]
  let ?post = "drop (idx + length end_document) m"
  have "list_all is_space ?post" using assms by (simp add: marker_ok_def)
  then have t: "includeRefs (end_document @ ?post) = []" by (rule includeRefs_marker_tail)
  then show "includeRefs (drop idx m) = []" using sp(1) by simp
  have "boundary_char (hd (end_document @ ?post))"
    using boundary_backslash by (simp add: end_document_def)
  then have "includeRefs (take idx m @ (end_document @ ?post))
      = includeRefs (take idx m) @ includeRefs (end_document @ ?post)"
    by (intro includeRefs_append) simp
  with t sp(2) show "includeRefs (take idx m) = includeRefs m" by simp
qed

lemma sorted_snoc_less:
  "sorted_wrt (<) xs \<Longrightarrow> list_all (\<lambda>r. r \<le> j) xs \<Longrightarrow> j < (p::nat) \<Longrightarrow> sorted_wrt (<) (xs @ [p])"
  by (auto simp: sorted_wrt_append list_all_iff)

lemma fragment_le_lastPage:
  assumes "readFile (pageTexName q) w \<noteq> None"
  shows "q \<le> lastPage w"
proof -
  have "pageTexName q \<in> set (readdir w)"
    using assms by (auto simp: readFile_def readdir_def dest: map_of_SomeD intro: rev_image_eqI)
  then have "q \<in> page_index ` {f \<in> set (readdir w). is_page_tex f}"
    using is_page_tex_pageTexName [of q] page_index_pageTexName [of q] by force
  then show ?thesis unfolding lastPage_def by (intro Max_ge) auto
qed

lemma pageLoop_manifest:
  assumes run: "pageLoop cfg i envs w = Some w'"
    and m: "readFile MAIN_TEX w = Some m"
    and inv: "manifest_inv w"
    and i: "lastPage w = i"
  shows "\<exists>m' evs. readFile MAIN_TEX w' = Some m' \<and> manifest_inv w' \<and>
      prefix (includeRefs m) (includeRefs m') \<and>
      (str_includes m' end_document \<longleftrightarrow> str_includes m end_document) \<and>
      (\<forall>q\<le>i. readFile (pageTexName q) w' = readFile (pageTexName q) w) \<and>
      events w' = events w @ evs \<and>
      set (includeRefs m') = set (includeRefs m) \<union> {q. Recorded q \<in> set evs}"
    (is "?Q w'")
proof -
  define I where "I = (\<lambda>j w1. i \<le> j \<and> lastPage w1 = j \<and>
     (\<exists>m1 evs. map_of (docs w1) MAIN_TEX = Some m1 \<and> marker_ok m1 \<and>
        sorted_wrt (<) (includeRefs m1) \<and> list_all (\<lambda>r. r \<le> j) (includeRefs m1) \<and>
        prefix (includeRefs m) (includeRefs m1) \<and>
        (str_includes m1 end_document \<longleftrightarrow> str_includes m end_document) \<and>
        (\<forall>q\<le>i. map_of (docs w1) (pageTexName q) = map_of (docs w) (pageTexName q)) \<and>
        events w1 = events w @ evs \<and>
        set (includeRefs m1) = set (includeRefs m) \<union> {q. Recorded q \<in> set evs}))"
  define J where "J = (\<lambda>j w1. i \<le> j \<and> j \<le> lastPage w1 \<and>
     (\<exists>m1 evs. map_of (docs w1) MAIN_TEX = Some m1 \<and> marker_ok m1 \<and>
        sorted_wrt (<) (includeRefs m1) \<and> list_all (\<lambda>r. r \<le> j) (includeRefs m1) \<and>
        prefix (includeRefs m) (includeRefs m1) \<and>
        (str_includes m1 end_document \<longleftrightarrow> str_includes m end_document) \<and>
        (\<forall>q\<le>i. map_of (docs w1) (pageTexName q) = map_of (docs w) (pageTexName q)) \<and>
        events w1 = events w @ evs \<and>
        set (includeRefs m1) = set (includeRefs m) \<union> {q. Recorded q \<in> set evs}))"
  have JQ: "?Q w1" if "J j w1" for j w1
  proof -
    from that obtain m1 evs where s: "i \<le> j" "j \<le> lastPage w1"
      "map_of (docs w1) MAIN_TEX = Some m1" "marker_ok m1"
      "sorted_wrt (<) (includeRefs m1)" "list_all (\<lambda>r. r \<le> j) (includeRefs m1)"
      "prefix (includeRefs m) (includeRefs m1)"
      "str_includes m1 end_document \<longleftrightarrow> str_includes m end_document"
      "\<forall>q\<le>i. map_of (docs w1) (pageTexName q) = map_of (docs w) (pageTexName q)"
      "events w1 = events w @ evs"
      "set (includeRefs m1) = set (includeRefs m) \<union> {q. Recorded q \<in> set evs}"
      unfolding J_def by blast
    have "list_all (\<lambda>r. r \<le> lastPage w1) (includeRefs m1)"
      using s(2,6) by (auto simp: list_all_iff)
    then have "manifest_inv w1"
      using s(3,4,5) by (simp add: manifest_inv_def readFile_main_docs)
    then show ?thesis
      using s(3,7,8,9,10,11)
      by (intro exI [of _ m1] exI [of _ evs]) (simp add: readFile_main_docs readFile_page_docs)
  qed
  have IQ: "?Q w1" if "I j w1" for j w1
    by (rule JQ [of j]) (use that in \<open>auto simp: I_def J_def\<close>)
  show ?thesis
  proof (rule pageLoop_rule [where I = I and Q = ?Q, OF run])
    show "I i w"
      using m inv i unfolding I_def manifest_inv_def
      by (auto simp: readFile_main_docs intro!: exI [of _ "[]"])
  next
    fix j w1 envs1 w2 envs2
    assume h: "j < totalPages cfg" "I j w1"
      "retryLoop cfg (j + 1) 1 envs1 (log (Begin (j + 1)) w1) = Some (True, w2, envs2)"
    from h(2) obtain m1 evs where s: "i \<le> j" "lastPage w1 = j"
      "map_of (docs w1) MAIN_TEX = Some m1" "marker_ok m1"
      "sorted_wrt (<) (includeRefs m1)" "list_all (\<lambda>r. r \<le> j) (includeRefs m1)"
      "prefix (includeRefs m) (includeRefs m1)"
      "str_includes m1 end_document \<longleftrightarrow> str_includes m end_document"
      "\<forall>q\<le>i. map_of (docs w1) (pageTexName q) = map_of (docs w) (pageTexName q)"
      "events w1 = events w @ evs"
      "set (includeRefs m1) = set (includeRefs m) \<union> {q. Recorded q \<in> set evs}"
      unfolding I_def by blast
    have m1: "map_of (docs (log (Begin (j + 1)) w1)) MAIN_TEX = Some m1" using s(3) by simp
    have p: "1 \<le> j + 1" "j + 1 \<le> totalPages cfg" using h(1) by simp_all
    have a1: "(1::nat) \<le> MAX_RETRIES" by (simp add: MAX_RETRIES_def)
    from retryLoop_effect [OF h(3) p m1 a1] obtain er frag pre where
      er: "events w2 = events w1 @ [Begin (j + 1)] @ er" "list_all (attempt_event (j + 1)) er"
        "docs w2 = recorded_docs (j + 1) frag (docs w1)" "er = pre @ [Recorded (j + 1)]"
      by auto
    let ?m2 = "updateMainTex (j + 1) m1"
    let ?evs = "evs @ [Begin (j + 1)] @ er"
    have r2: "includeRefs ?m2 = includeRefs m1 @ [j + 1]"
      using s(4) by (rule includeRefs_updateMainTex)
    have c1: "map_of (docs w2) MAIN_TEX = Some ?m2"
      unfolding er(3) using s(3) by (simp add: map_of_recorded_docs_main)
    have c2: "marker_ok ?m2" using s(4) by (rule marker_ok_updateMainTex)
    have c3: "sorted_wrt (<) (includeRefs ?m2)"
      unfolding r2 using s(5,6) by (rule sorted_snoc_less) simp
    have c4: "list_all (\<lambda>r. r \<le> j + 1) (includeRefs ?m2)"
      unfolding r2 using s(6) by (auto simp: list_all_iff)
    have c5: "prefix (includeRefs m) (includeRefs ?m2)"
      unfolding r2 using s(7) by (rule prefix_prefix)
    have c6: "str_includes ?m2 end_document \<longleftrightarrow> str_includes m end_document"
      using s(8) by (simp add: includes_updateMainTex)
    have c7: "\<forall>q\<le>i. map_of (docs w2) (pageTexName q) = map_of (docs w) (pageTexName q)"
    proof (intro allI impI)
      fix q assume "q \<le> i"
      then have "pageTexName q \<noteq> pageTexName (j + 1)" using s(1) pageTexName_inj [of q "j + 1"] by auto
      then have "map_of (docs w2) (pageTexName q) = map_of (docs w1) (pageTexName q)"
        unfolding er(3) using main_not_page [of q] by (intro map_of_recorded_other) auto
      with s(9) \<open>q \<le> i\<close> show "map_of (docs w2) (pageTexName q) = map_of (docs w) (pageTexName q)" by simp
    qed
    have c8: "events w2 = events w @ ?evs" using s(10) er(1) by simp
    have "{q. Recorded q \<in> set er} = {j + 1}"
      using er(2) unfolding er(4) by (auto simp: list_all_iff)
    then have c9: "set (includeRefs ?m2) = set (includeRefs m) \<union> {q. Recorded q \<in> set ?evs}"
      unfolding r2 using s(11) by auto
    have c10: "lastPage w2 = j + 1" using lastPage_recorded [OF er(3)] s(2) by simp
    show "I (j + 1) w2"
      unfolding I_def using s(1) c1 c2 c3 c4 c5 c6 c7 c8 c9 c10
      by (intro conjI exI [of _ ?m2] exI [of _ ?evs]) simp_all
  next
    fix j w1 envs1 w2 envs2
    assume h: "j < totalPages cfg" "I j w1"
      "retryLoop cfg (j + 1) 1 envs1 (log (Begin (j + 1)) w1) = Some (False, w2, envs2)"
    from h(2) obtain m1 evs where s: "i \<le> j" "lastPage w1 = j"
      "map_of (docs w1) MAIN_TEX = Some m1" "marker_ok m1"
      "sorted_wrt (<) (includeRefs m1)" "list_all (\<lambda>r. r \<le> j) (includeRefs m1)"
      "prefix (includeRefs m) (includeRefs m1)"
      "str_includes m1 end_document \<longleftrightarrow> str_includes m end_document"
      "\<forall>q\<le>i. map_of (docs w1) (pageTexName q) = map_of (docs w) (pageTexName q)"
      "events w1 = events w @ evs"
      "set (includeRefs m1) = set (includeRefs m) \<union> {q. Recorded q \<in> set evs}"
      unfolding I_def by blast
    have m1: "map_of (docs (log (Begin (j + 1)) w1)) MAIN_TEX = Some m1" using s(3) by simp
    have p: "1 \<le> j + 1" "j + 1 \<le> totalPages cfg" using h(1) by simp_all
    have a1: "(1::nat) \<le> MAX_RETRIES" by (simp add: MAX_RETRIES_def)
    from retryLoop_effect [OF h(3) p m1 a1] obtain er where
      er: "events w2 = events w1 @ [Begin (j + 1)] @ er" "list_all (attempt_event (j + 1)) er"
        "touched (j + 1) (docs w1) (docs w2)" "Recorded (j + 1) \<notin> set er"
      by auto
    let ?w' = "log (Notify (failMessage (j + 1))) w2"
    let ?evs = "evs @ [Begin (j + 1)] @ er @ [Notify (failMessage (j + 1))]"
    have "{q. Recorded q \<in> set er} = {}"
      using er(2,4) by (auto simp: list_all_iff)
    then have c9: "set (includeRefs m1) = set (includeRefs m) \<union> {q. Recorded q \<in> set ?evs}"
      using s(11) by auto
    have "j \<le> lastPage ?w'" using s(2) lastPage_touched [OF er(3)] lastPage_cong [of ?w' w2] by simp
    moreover have "events ?w' = events w @ ?evs" using s(10) er(1) by simp
    moreover have "map_of (docs ?w') MAIN_TEX = Some m1" using s(3) touched_main [OF er(3)] by simp
    moreover have "\<forall>q\<le>i. map_of (docs ?w') (pageTexName q) = map_of (docs w) (pageTexName q)"
    proof (intro allI impI)
      fix q assume "q \<le> i"
      then have "pageTexName q \<noteq> pageTexName (j + 1)" using s(1) pageTexName_inj [of q "j + 1"] by auto
      then have "map_of (docs w2) (pageTexName q) = map_of (docs w1) (pageTexName q)"
        using er(3) by (intro touched_map_of)
      with s(9) \<open>q \<le> i\<close> show "map_of (docs ?w') (pageTexName q) = map_of (docs w) (pageTexName q)"
        by simp
    qed
    ultimately have "J j ?w'"
      unfolding J_def using s(1,4,5,6,7,8) c9
      by (intro conjI exI [of _ m1] exI [of _ ?evs]) simp_all
    then show "?Q ?w'" by (rule JQ)
  next
    fix j w1
    assume "\<not> j < totalPages cfg" "I j w1"
    then show "?Q w1" using IQ by blast
  qed
qed

lemma lastPage_write_main: "lastPage (writeFile MAIN_TEX data w) = lastPage w"
proof -
  have "set (filter is_page_tex (map fst (AList.update MAIN_TEX data (docs w))))
      = set (filter is_page_tex (map fst (docs w)))"
    using not_page_tex_main by (auto simp: dom_update)
  then show ?thesis by (simp add: lastPage_docs docs_writeFile not_png_main)
qed

lemma readFile_page_write_main:
  "readFile (pageTexName q) (writeFile MAIN_TEX data w) = readFile (pageTexName q) w"
  using main_not_page [of q] by simp

lemma setupWorkspace_facts:
  "events (setupWorkspace w) = events w"
  "readFile MAIN_TEX (setupWorkspace w)
     = Some (case readFile MAIN_TEX w of None \<Rightarrow> initialContent | Some m \<Rightarrow> m)"
  "lastPage (setupWorkspace w) = lastPage w"
  "readFile (pageTexName q) (setupWorkspace w) = readFile (pageTexName q) w"
  by (auto simp: setupWorkspace_def lastPage_write_main main_not_page split: option.splits)

lemma manifest_inv_setupWorkspace: "manifest_inv w \<Longrightarrow> manifest_inv (setupWorkspace w)"
  unfolding manifest_inv_def
  by (auto simp: setupWorkspace_facts marker_ok_def initialContent_facts split: option.splits)

lemma finalize_facts:
  assumes "readFile MAIN_TEX w = Some m"
  shows "\<exists>w'. finalize w = Inr w' \<and> events w' = events w \<and>
      readFile MAIN_TEX w' = Some (closed_text m) \<and> lastPage w' = lastPage w \<and>
      (\<forall>q. readFile (pageTexName q) w' = readFile (pageTexName q) w)"
proof (cases "str_includes m end_document")
  case True
  with assms show ?thesis by (simp add: finalize_def closed_text_def)
next
  case False
  let ?w' = "writeFile MAIN_TEX (m @ closing) w"
  have "finalize w = Inr ?w'"
    using assms False by (simp add: finalize_def appendFile_def closing_def)
  then show ?thesis
    using False by (simp add: closed_text_def lastPage_write_main main_not_page)
qed

lemma closed_text_facts:
  assumes "marker_ok m"
  shows "marker_ok (closed_text m)" "includeRefs (closed_text m) = includeRefs m"
    "str_includes (closed_text m) end_document" "count_occ end_document (closed_text m) = 1"
proof -
  show "marker_ok (closed_text m)"
    using assms marker_ok_closed(1) by (simp add: closed_text_def)
  show "includeRefs (closed_text m) = includeRefs m"
    using marker_ok_closed(4) by (simp add: closed_text_def)
  show inc: "str_includes (closed_text m) end_document"
    using marker_ok_closed(3) [of m] last_occurrence_includes [of "m @ closing" end_document]
    by (auto simp: closed_text_def)
  show "count_occ end_document (closed_text m) = 1"
  proof (cases "str_includes m end_document")
    case True
    then obtain idx where "last_occurrence m end_document = Some idx"
      using last_occurrence_includes [of m end_document] by auto
    with assms True show ?thesis by (simp add: marker_ok_def closed_text_def)
  next
    case False
    then show ?thesis using marker_ok_closed(2) by (simp add: closed_text_def)
  qed
qed

lemma pageLoop_done: "\<not> i < totalPages cfg \<Longrightarrow> pageLoop cfg i envs w = Some w"
  by (subst pageLoop.simps) simp

lemma run_start:
  "\<exists>i. processPdfDocument cfg envs w =
          (case pageLoop cfg i envs (setupWorkspace w) of
             None \<Rightarrow> None
           | Some w1 \<Rightarrow> Some (finalize w1)) \<and>
        (lastPage w < 2 ^ 53 \<longrightarrow> i = lastPage w) \<and> (2 ^ 53 \<le> lastPage w \<longrightarrow> 2 ^ 53 \<le> i)"
proof (cases "lastPage w < 2 ^ 53")
  case True
  then have "lastPage (setupWorkspace w) < 2 ^ 53" by (simp add: setupWorkspace_facts)
  then have "getLastProcessedPageByTex (readdir (setupWorkspace w)) = Inr (enat (lastPage w))"
    using getLast_lastPage [of "setupWorkspace w"] by (simp add: setupWorkspace_facts)
  then show ?thesis using True by (intro exI [of _ "lastPage w"]) (simp add: processPdfDocument_def)
next
  case False
  then have "2 ^ 53 \<le> lastPage (setupWorkspace w)" by (simp add: setupWorkspace_facts)
  then obtain s where s: "getLastProcessedPageByTex (readdir (setupWorkspace w)) = Inr s"
    "enat (2 ^ 53) \<le> s"
    using getLast_lastPage_large by blast
  show ?thesis
  proof (cases s)
    case (enat n)
    with s show ?thesis using False by (intro exI [of _ n]) (simp add: processPdfDocument_def)
  next
    case infinity
    let ?i = "max (totalPages cfg) (2 ^ 53)"
    have "pageLoop cfg ?i envs (setupWorkspace w) = Some (setupWorkspace w)"
      by (rule pageLoop_done) simp
    with s infinity show ?thesis
      using False by (intro exI [of _ ?i]) (simp add: processPdfDocument_def)
  qed
qed

lemma run_unfold:
  assumes "totalPages cfg < 2 ^ 53"
  shows "processPdfDocument cfg envs w =
          (case pageLoop cfg (lastPage w) envs (setupWorkspace w) of
             None \<Rightarrow> None
           | Some w1 \<Rightarrow> Some (finalize w1))"
proof -
  from run_start [of cfg envs w] obtain i where i:
    "processPdfDocument cfg envs w =
       (case pageLoop cfg i envs (setupWorkspace w) of None \<Rightarrow> None | Some w1 \<Rightarrow> Some (finalize w1))"
    "lastPage w < 2 ^ 53 \<longrightarrow> i = lastPage w" "2 ^ 53 \<le> lastPage w \<longrightarrow> 2 ^ 53 \<le> i"
    by blast
  show ?thesis
  proof (cases "lastPage w < 2 ^ 53")
    case True
    with i show ?thesis by simp
  next
    case False
    with i(3) assms have "\<not> i < totalPages cfg" "\<not> lastPage w < totalPages cfg" by simp_all
    then have "pageLoop cfg i envs (setupWorkspace w) = pageLoop cfg (lastPage w) envs (setupWorkspace w)"
      by (simp add: pageLoop_done)
    with i(1) show ?thesis by simp
  qed
qed

lemma run_decompose_start:
  assumes "processPdfDocument cfg envs w = Some r"
  obtains i w1 m1 w' where
    "pageLoop cfg i envs (setupWorkspace w) = Some w1"
    "readFile MAIN_TEX w1 = Some m1" "r = Inr w'" "finalize w1 = Inr w'"
    "events w' = events w1" "readFile MAIN_TEX w' = Some (closed_text m1)"
    "lastPage w' = lastPage w1" "\<forall>q. readFile (pageTexName q) w' = readFile (pageTexName q) w1"
    "totalPages cfg < 2 ^ 53 \<longrightarrow> i = lastPage w"
proof -
  let ?w0 = "setupWorkspace w"
  have "\<exists>i. processPdfDocument cfg envs w =
          (case pageLoop cfg i envs ?w0 of None \<Rightarrow> None | Some w1 \<Rightarrow> Some (finalize w1)) \<and>
        (totalPages cfg < 2 ^ 53 \<longrightarrow> i = lastPage w)"
  proof (cases "totalPages cfg < 2 ^ 53")
    case True
    then show ?thesis using run_unfold [of cfg envs w] by blast
  next
    case False
    then show ?thesis using run_start [of cfg envs w] by blast
  qed
  then obtain i where i:
    "processPdfDocument cfg envs w =
       (case pageLoop cfg i envs ?w0 of None \<Rightarrow> None | Some w1 \<Rightarrow> Some (finalize w1))"
    "totalPages cfg < 2 ^ 53 \<longrightarrow> i = lastPage w"
    by blast
  from assms i(1) obtain w1 where w1: "pageLoop cfg i envs ?w0 = Some w1" "r = finalize w1"
    by (auto split: option.splits)
  have "map_of (docs ?w0) MAIN_TEX \<noteq> None"
    using setupWorkspace_facts(2) [of w] by (simp add: readFile_main_docs)
  from pageLoop_events [OF w1(1) this] obtain m1 where m1: "readFile MAIN_TEX w1 = Some m1"
    by (auto simp: readFile_main_docs)
  from finalize_facts [OF m1] w1 m1 i(2) that show ?thesis by metis
qed

lemma run_decompose:
  assumes "processPdfDocument cfg envs w = Some r" "totalPages cfg < 2 ^ 53"
  obtains w1 m1 w' where
    "pageLoop cfg (lastPage w) envs (setupWorkspace w) = Some w1"
    "readFile MAIN_TEX w1 = Some m1" "r = Inr w'" "finalize w1 = Inr w'"
    "events w' = events w1" "readFile MAIN_TEX w' = Some (closed_text m1)"
    "lastPage w' = lastPage w1" "\<forall>q. readFile (pageTexName q) w' = readFile (pageTexName q) w1"
proof -
  from assms(1) obtain i w1 m1 w' where d:
    "pageLoop cfg i envs (setupWorkspace w) = Some w1"
    "readFile MAIN_TEX w1 = Some m1" "r = Inr w'" "finalize w1 = Inr w'"
    "events w' = events w1" "readFile MAIN_TEX w' = Some (closed_text m1)"
    "lastPage w' = lastPage w1" "\<forall>q. readFile (pageTexName q) w' = readFile (pageTexName q) w1"
    "totalPages cfg < 2 ^ 53 \<longrightarrow> i = lastPage w"
    by (rule run_decompose_start)
  from d(9) assms(2) have "i = lastPage w" by simp
  with d that show ?thesis by blast
qed

lemma run_events_start:
  assumes "processPdfDocument cfg envs w = Some r"
  shows "\<exists>w' evs lo. r = Inr w' \<and> events w' = events w @ evs \<and>
      list_all (run_event lo (totalPages cfg)) evs \<and>
      (\<forall>p. \<exists>n\<le>MAX_RETRIES + 1. failures p evs = [1..<n]) \<and>
      halted evs \<and>
      (\<forall>q. Recorded q \<in> set evs \<longrightarrow> readFile (pageTexName q) w' \<noteq> None)"
proof -
  from assms obtain i w1 and m1 :: string and w' where d:
    "pageLoop cfg i envs (setupWorkspace w) = Some w1"
    "r = Inr w'" "events w' = events w1"
    "\<forall>q. readFile (pageTexName q) w' = readFile (pageTexName q) w1"
    by (rule run_decompose_start)
  have "map_of (docs (setupWorkspace w)) MAIN_TEX \<noteq> None"
    using setupWorkspace_facts(2) [of w] by (simp add: readFile_main_docs)
  from pageLoop_events [OF d(1) this] d(2,3,4) show ?thesis
    by (auto simp: setupWorkspace_facts readFile_page_docs)
qed

lemma run_events:
  assumes "processPdfDocument cfg envs w = Some r" "totalPages cfg < 2 ^ 53"
  shows "\<exists>w' evs. r = Inr w' \<and> events w' = events w @ evs \<and>
      list_all (run_event (lastPage w) (totalPages cfg)) evs \<and>
      (if lastPage w < totalPages cfg then \<exists>rest. evs = Begin (lastPage w + 1) # rest else evs = []) \<and>
      (\<forall>p. \<exists>n\<le>MAX_RETRIES + 1. failures p evs = [1..<n]) \<and>
      halted evs \<and>
      (\<forall>q. Recorded q \<in> set evs \<longrightarrow> readFile (pageTexName q) w' \<noteq> None)"
proof -
  from assms obtain w1 and m1 :: string and w' where d:
    "pageLoop cfg (lastPage w) envs (setupWorkspace w) = Some w1"
    "r = Inr w'" "events w' = events w1"
    "\<forall>q. readFile (pageTexName q) w' = readFile (pageTexName q) w1"
    by (rule run_decompose)
  have "map_of (docs (setupWorkspace w)) MAIN_TEX \<noteq> None"
    using setupWorkspace_facts(2) [of w] by (simp add: readFile_main_docs)
  from pageLoop_events [OF d(1) this] d(2,3,4) show ?thesis
    by (auto simp: setupWorkspace_facts readFile_page_docs)
qed

lemma run_manifest:
  assumes "processPdfDocument cfg envs w = Some r" "manifest_inv w" "totalPages cfg < 2 ^ 53"
  shows "\<exists>w' m' evs. r = Inr w' \<and> readFile MAIN_TEX w' = Some m' \<and> manifest_inv w' \<and>
      str_includes m' end_document \<and> count_occ end_document m' = 1 \<and>
      (\<forall>m. readFile MAIN_TEX w = Some m \<longrightarrow>
         prefix (includeRefs m) (includeRefs m') \<and>
         set (includeRefs m') = set (includeRefs m) \<union> {q. Recorded q \<in> set evs}) \<and>
      (\<forall>q\<le>lastPage w. readFile (pageTexName q) w' = readFile (pageTexName q) w) \<and>
      events w' = events w @ evs \<and>
      (\<forall>q. Recorded q \<in> set evs \<longrightarrow> q \<in> set (includeRefs m'))"
proof -
  let ?w0 = "setupWorkspace w"
  let ?m0 = "case readFile MAIN_TEX w of None \<Rightarrow> initialContent | Some m \<Rightarrow> m"
  from assms(1,3) obtain w1 m1 w' where d:
    "pageLoop cfg (lastPage w) envs ?w0 = Some w1" "readFile MAIN_TEX w1 = Some m1"
    "r = Inr w'" "events w' = events w1" "readFile MAIN_TEX w' = Some (closed_text m1)"
    "lastPage w' = lastPage w1" "\<forall>q. readFile (pageTexName q) w' = readFile (pageTexName q) w1"
    by (rule run_decompose)
  have m0: "readFile MAIN_TEX ?w0 = Some ?m0" by (rule setupWorkspace_facts)
  have inv0: "manifest_inv ?w0" using assms(2) by (rule manifest_inv_setupWorkspace)
  have l0: "lastPage ?w0 = lastPage w" by (rule setupWorkspace_facts)
  from pageLoop_manifest [OF d(1) m0 inv0 l0] d(2) obtain evs where s:
    "manifest_inv w1" "prefix (includeRefs ?m0) (includeRefs m1)"
    "\<forall>q\<le>lastPage w. readFile (pageTexName q) w1 = readFile (pageTexName q) ?w0"
    "events w1 = events ?w0 @ evs"
    "set (includeRefs m1) = set (includeRefs ?m0) \<union> {q. Recorded q \<in> set evs}"
    by auto
  have mk: "marker_ok m1" using s(1) d(2) by (simp add: manifest_inv_def)
  note ct = closed_text_facts [OF mk]
  have "manifest_inv w'"
    using s(1) d(2,5,6) ct(1,2) by (simp add: manifest_inv_def)
  moreover have "\<forall>m. readFile MAIN_TEX w = Some m \<longrightarrow>
      prefix (includeRefs m) (includeRefs (closed_text m1)) \<and>
      set (includeRefs (closed_text m1)) = set (includeRefs m) \<union> {q. Recorded q \<in> set evs}"
    using s(2,5) ct(2) by auto
  moreover have "\<forall>q\<le>lastPage w. readFile (pageTexName q) w' = readFile (pageTexName q) w"
    using s(3) d(7) by (simp add: setupWorkspace_facts)
  moreover have "events w' = events w @ evs" using s(4) d(4) by (simp add: setupWorkspace_facts)
  moreover have "\<forall>q. Recorded q \<in> set evs \<longrightarrow> q \<in> set (includeRefs (closed_text m1))"
    using s(5) ct(2) by auto
  ultimately show ?thesis using d(3,5) ct(3,4) by blast
qed

text \<open>Properties of the world that every write and every event keeps\<close>

lemma getImageBuffer_preserves:
  assumes lg: "\<And>ev w. P w \<Longrightarrow> P (log ev w)" and wr: "\<And>name data w. P w \<Longrightarrow> P (writeFile name data w)"
    and w: "P w"
  shows "P (snd (getImageBuffer cfg e q w))"
proof -
  have p1: "P (log (Convert q) w)" using w by (rule lg)
  have p2: "P (writeFile name data (log (Convert q) w))" for name data using p1 by (rule wr)
  have "snd (getImageBuffer cfg e q w) = w \<or> snd (getImageBuffer cfg e q w) = log (Convert q) w \<or>
      (\<exists>name data. snd (getImageBuffer cfg e q w) = writeFile name data (log (Convert q) w))"
    unfolding getImageBuffer_def by (auto split: convert_outcome.splits)
  with w p1 p2 show ?thesis by auto
qed

lemma contextWindow_preserves:
  assumes lg: "\<And>ev w. P w \<Longrightarrow> P (log ev w)" and wr: "\<And>name data w. P w \<Longrightarrow> P (writeFile name data w)"
    and w: "P w"
  shows "P (snd (contextWindow cfg e p w))"
proof -
  obtain r1 w1 where g1: "getImageBuffer cfg e (p - 1) w = (r1, w1)" by fastforce
  obtain r2 w2 where g2: "getImageBuffer cfg e p w1 = (r2, w2)" by fastforce
  obtain r3 w3 where g3: "getImageBuffer cfg e (p + 1) w2 = (r3, w3)" by fastforce
  have "P (snd (getImageBuffer cfg e (p - 1) w))"
    by (rule getImageBuffer_preserves [where P = P]) (fact lg wr w)+
  then have p1: "P w1" using g1 by simp
  have "P (snd (getImageBuffer cfg e p w1))"
    by (rule getImageBuffer_preserves [where P = P]) (fact lg wr p1)+
  then have p2: "P w2" using g2 by simp
  have "P (snd (getImageBuffer cfg e (p + 1) w2))"
    by (rule getImageBuffer_preserves [where P = P]) (fact lg wr p2)+
  then have p3: "P w3" using g3 by simp
  have "snd (contextWindow cfg e p w) = w1 \<or> snd (contextWindow cfg e p w) = w2 \<or>
      snd (contextWindow cfg e p w) = w3"
    using g1 g2 g3 by (auto simp: contextWindow_def split: sum.splits)
  with p1 p2 p3 show ?thesis by auto
qed

lemma recordPage_preserves:
  assumes lg: "\<And>ev w. P w \<Longrightarrow> P (log ev w)" and wr: "\<And>name data w. P w \<Longrightarrow> P (writeFile name data w)"
    and w: "P w"
  shows "P (snd (recordPage cfg p c w))"
proof -
  obtain e w1 where fw: "fs_writeFile cfg (pageTexName p) c w = (e, w1)" by fastforce
  from fs_writeFile_cases [OF fw] have "w1 = w \<or> (\<exists>frag. w1 = writeFile (pageTexName p) frag w)"
    by blast
  then have p1: "P w1" using w wr [OF w] by auto
  have p2: "P (log (Recorded p) (writeFile MAIN_TEX m w1))" for m
    by (rule lg, rule wr, rule p1)
  have "snd (recordPage cfg p c w) = w1 \<or>
      (\<exists>m. snd (recordPage cfg p c w) = log (Recorded p) (writeFile MAIN_TEX m w1))"
    using fw by (auto simp: recordPage_def split: option.splits)
  then show ?thesis using p1 p2 by (elim disjE exE) simp_all
qed

lemma attemptOnce_preserves:
  assumes lg: "\<And>ev w. P w \<Longrightarrow> P (log ev w)" and wr: "\<And>name data w. P w \<Longrightarrow> P (writeFile name data w)"
    and w: "P w"
  shows "P (snd (attemptOnce cfg e p w))"
proof -
  obtain r w3 where cw: "contextWindow cfg e p w = (r, w3)" by fastforce
  have "P (snd (contextWindow cfg e p w))"
    by (rule contextWindow_preserves [where P = P]) (fact lg wr w)+
  then have p3: "P w3" using cw by simp
  show ?thesis
  proof (cases r)
    case (Inl err)
    with cw p3 show ?thesis by (simp add: attemptOnce_def)
  next
    case (Inr win)
    obtain a b c where win: "win = (a, b, c)" by (cases win) auto
    show ?thesis
    proof (cases "b = None")
      case True
      with cw Inr win p3 show ?thesis by (simp add: attemptOnce_def)
    next
      case False
      show ?thesis
      proof (cases "processPageWithGemini cfg e [a, b, c]")
        case (Inl err)
        have "P (log (Sleep (retrySeconds err)) w3)" using p3 by (rule lg)
        with cw \<open>r = Inr win\<close> win False Inl p3 show ?thesis by (auto simp: attemptOnce_def)
      next
        case (Inr content)
        have "P (snd (recordPage cfg p content w3))"
          by (rule recordPage_preserves [where P = P]) (fact lg wr p3)+
        with cw \<open>r = Inr win\<close> win False Inr show ?thesis by (auto simp: attemptOnce_def)
      qed
    qed
  qed
qed

lemma retryLoop_preserves:
  assumes run: "retryLoop cfg p a envs w = Some (ok, w', envs')"
    and lg: "\<And>ev w. P w \<Longrightarrow> P (log ev w)" and wr: "\<And>name data w. P w \<Longrightarrow> P (writeFile name data w)"
    and w: "P w"
  shows "P w'"
proof -
  have at: "P w1" if "P v" "attemptOnce cfg e p (log (Attempt p b) v) = (r, w1)" for v e b r w1
  proof -
    have a0: "P (log (Attempt p b) v)" using that(1) by (rule lg)
    have "P (snd (attemptOnce cfg e p (log (Attempt p b) v)))"
      by (rule attemptOnce_preserves [where P = P]) (fact lg wr a0)+
    with that(2) show ?thesis by simp
  qed
  show ?thesis
  proof (rule retryLoop_rule [where I = "\<lambda>a. P" and Q = "\<lambda>ok. P", OF run w])
    fix a w e err w1
    assume h: "P w" "attemptOnce cfg e p (log (Attempt p a) w) = (Inl err, w1)"
    then show "P w1" by (rule at)
    then show "P (log (Failed p a err) w1)" by (rule lg)
  next
    fix a w e u w1
    assume h: "P w" "attemptOnce cfg e p (log (Attempt p a) w) = (Inr u, w1)"
    then show "P w1" by (rule at)
  qed
qed

lemma pageLoop_preserves:
  assumes run: "pageLoop cfg i envs w = Some w'"
    and lg: "\<And>ev w. P w \<Longrightarrow> P (log ev w)" and wr: "\<And>name data w. P w \<Longrightarrow> P (writeFile name data w)"
    and w: "P w"
  shows "P w'"
proof -
  have rl: "P w1" if "P v" "retryLoop cfg (j + 1) 1 es (log (Begin (j + 1)) v) = Some (ok, w1, es')"
    for v j es ok w1 es'
  proof -
    have a0: "P (log (Begin (j + 1)) v)" using that(1) by (rule lg)
    show ?thesis by (rule retryLoop_preserves [where P = P, OF that(2)]) (fact lg wr a0)+
  qed
  show ?thesis
  proof (rule pageLoop_rule [where I = "\<lambda>i. P" and Q = P, OF run w])
    fix i w envs w1 envs'
    assume h: "P w" "retryLoop cfg (i + 1) 1 envs (log (Begin (i + 1)) w) = Some (True, w1, envs')"
    then show "P w1" by (rule rl)
  next
    fix i w envs w1 envs'
    assume h: "P w" "retryLoop cfg (i + 1) 1 envs (log (Begin (i + 1)) w) = Some (False, w1, envs')"
    then have "P w1" by (rule rl)
    then show "P (log (Notify (failMessage (i + 1))) w1)" by (rule lg)
  qed
qed

lemma run_preserves:
  assumes run: "processPdfDocument cfg envs w = Some (Inr w')"
    and lg: "\<And>ev w. P w \<Longrightarrow> P (log ev w)" and wr: "\<And>name data w. P w \<Longrightarrow> P (writeFile name data w)"
    and w: "P w"
  shows "P w'"
proof -
  from run obtain i w1 where d: "pageLoop cfg i envs (setupWorkspace w) = Some w1"
    "finalize w1 = Inr w'"
    by (rule run_decompose_start) auto
  have "setupWorkspace w = w \<or> setupWorkspace w = writeFile MAIN_TEX initialContent w"
    by (simp add: setupWorkspace_def split: option.splits)
  then have a0: "P (setupWorkspace w)" using w wr [OF w] by auto
  have p1: "P w1" by (rule pageLoop_preserves [where P = P, OF d(1)]) (fact lg wr a0)+
  have "w' = w1 \<or> (\<exists>data. w' = writeFile MAIN_TEX data w1)"
    using d(2) by (auto simp: finalize_def appendFile_def split: option.splits if_splits)
  then show ?thesis using p1 wr [OF p1] by auto
qed

lemma distinct_readdir_log: "distinct (readdir w) \<Longrightarrow> distinct (readdir (log ev w))"
  by (simp add: readdir_def)

lemma distinct_readdir_writeFile: "distinct (readdir w) \<Longrightarrow> distinct (readdir (writeFile name data w))"
  by (simp add: readdir_def distinct_update)

lemma run_distinct:
  assumes "processPdfDocument cfg envs w = Some (Inr w')" "distinct (readdir w)"
  shows "distinct (readdir w')"
  by (rule run_preserves [where P = "\<lambda>w. distinct (readdir w)", OF assms(1)])
     (fact distinct_readdir_log distinct_readdir_writeFile assms(2))+

lemma manifest_inv_docs:
  "manifest_inv w =
     (case map_of (docs w) MAIN_TEX of
        None \<Rightarrow> True
      | Some m \<Rightarrow>
          marker_ok m \<and> sorted_wrt (<) (includeRefs m) \<and>
          list_all (\<lambda>r. r \<le> lastPage w) (includeRefs m))"
  by (simp add: manifest_inv_def readFile_main_docs)

lemma manifest_inv_cong: "docs w' = docs w \<Longrightarrow> manifest_inv w' = manifest_inv w"
  using lastPage_cong [of w' w] by (simp add: manifest_inv_docs split: option.splits)

lemma manifest_inv_touched:
  assumes "touched p (docs w) (docs w')" "manifest_inv w"
  shows "manifest_inv w'"
proof -
  have l: "lastPage w \<le> lastPage w'" using assms(1) by (rule lastPage_touched)
  have m: "map_of (docs w') MAIN_TEX = map_of (docs w) MAIN_TEX" using assms(1) by (rule touched_main)
  show ?thesis
    using assms(2) l unfolding manifest_inv_docs m
    by (auto simp: list_all_iff split: option.splits)
qed

lemma attemptOnce_manifest_inv:
  assumes at: "attemptOnce cfg e p w = (r, w')" and p: "1 \<le> p" "p \<le> totalPages cfg"
    and m: "readFile MAIN_TEX w = Some m" and inv: "manifest_inv w" and lt: "lastPage w < p"
  shows "manifest_inv w'"
proof -
  have md: "map_of (docs w) MAIN_TEX = Some m" using m by (simp add: readFile_main_docs)
  note eff = attemptOnce_effect [OF at p md]
  have "touched p (docs w) (docs w') \<or> (\<exists>frag. docs w' = recorded_docs p frag (docs w))"
  proof (cases r)
    case (Inl err)
    from eff have "touched p (docs w) (docs w')" unfolding Inl by (simp only: sum.case) (elim exE conjE)
    then show ?thesis ..
  next
    case (Inr u)
    from eff have "\<exists>frag. docs w' = recorded_docs p frag (docs w)"
      unfolding Inr by (simp only: sum.case) (elim exE conjE, rule exI)
    then show ?thesis ..
  qed
  then consider (fail) "touched p (docs w) (docs w')" | (ok) frag where "docs w' = recorded_docs p frag (docs w)"
    by blast
  then show ?thesis
  proof cases
    case fail
    then show ?thesis using inv by (rule manifest_inv_touched)
  next
    case ok
    have i: "marker_ok m" "sorted_wrt (<) (includeRefs m)" "list_all (\<lambda>r. r \<le> lastPage w) (includeRefs m)"
      using inv m by (simp_all add: manifest_inv_def)
    have r2: "includeRefs (updateMainTex p m) = includeRefs m @ [p]"
      using i(1) by (rule includeRefs_updateMainTex)
    have "map_of (docs w') MAIN_TEX = Some (updateMainTex p m)"
      unfolding ok using md by (simp add: map_of_recorded_docs_main)
    moreover have "marker_ok (updateMainTex p m)" using i(1) by (rule marker_ok_updateMainTex)
    moreover have "sorted_wrt (<) (includeRefs (updateMainTex p m))"
      unfolding r2 using i(2,3) lt by (rule sorted_snoc_less)
    moreover have "lastPage w' = p" using lastPage_recorded [OF ok] lt by simp
    moreover have "list_all (\<lambda>r. r \<le> p) (includeRefs (updateMainTex p m))"
      unfolding r2 using i(3) lt by (auto simp: list_all_iff)
    ultimately show ?thesis by (simp add: manifest_inv_docs)
  qed
qed

lemma lastPage_pages:
  assumes "{f \<in> set (readdir w). is_page_tex f} = pageTexName ` P"
  shows "lastPage w = (if P = {} then 0 else Max P)"
proof -
  have "finite (pageTexName ` P)" using assms [symmetric] by simp
  moreover have "inj_on pageTexName P" by (auto intro: inj_onI dest: pageTexName_inj)
  ultimately have f: "finite P" by (rule finite_imageD)
  have "page_index ` pageTexName ` P = P"
    by (auto simp: image_image page_index_pageTexName)
  then have "lastPage w = Max (insert 0 P)" by (simp add: lastPage_def assms)
  also have "\<dots> = (if P = {} then 0 else Max P)" using f by (auto simp: max_def)
  finally show ?thesis .
qed

lemma run_returns:
  assumes "processPdfDocument cfg envs w \<noteq> None"
  shows "\<exists>w'. processPdfDocument cfg envs w = Some (Inr w')"
proof -
  from assms obtain r where r: "processPdfDocument cfg envs w = Some r" by auto
  then obtain w' where "r = Inr w'" by (rule run_decompose_start)
  with r show ?thesis by simp
qed

lemma readFile_in_readdir: "readFile name w \<noteq> None \<Longrightarrow> name \<in> set (readdir w)"
  by (auto simp: readFile_def readdir_def dest: map_of_SomeD intro: rev_image_eqI)

text \<open>Attempts whose outcome is known\<close>

lemma fst_getImageBuffer:
  "fst (getImageBuffer cfg e q w) =
     (if q < 1 \<or> totalPages cfg < q then Inr None
      else case converter e q of
             ConvertThrows err \<Rightarrow> Inl err
           | NoPath \<Rightarrow> Inr None
           | Png stem buf \<Rightarrow> Inr (if buf = [] then None else Some buf))"
  by (auto simp: getImageBuffer_def split: convert_outcome.splits)

lemma fst_contextWindow:
  "fst (contextWindow cfg e p w) =
     (case fst (getImageBuffer cfg e (p - 1) w) of
        Inl err \<Rightarrow> Inl err
      | Inr a \<Rightarrow>
     (case fst (getImageBuffer cfg e p w) of
        Inl err \<Rightarrow> Inl err
      | Inr b \<Rightarrow>
     (case fst (getImageBuffer cfg e (p + 1) w) of
        Inl err \<Rightarrow> Inl err
      | Inr c \<Rightarrow> Inr (a, b, c))))"
proof -
  obtain r1 w1 where g1: "getImageBuffer cfg e (p - 1) w = (r1, w1)" by fastforce
  obtain r2 w2 where g2: "getImageBuffer cfg e p w1 = (r2, w2)" by fastforce
  obtain r3 w3 where g3: "getImageBuffer cfg e (p + 1) w2 = (r3, w3)" by fastforce
  have "fst (getImageBuffer cfg e p w) = r2"
    using g2 fst_getImageBuffer [of cfg e p w] fst_getImageBuffer [of cfg e p w1] by simp
  moreover have "fst (getImageBuffer cfg e (p + 1) w) = r3"
    using g3 fst_getImageBuffer [of cfg e "p + 1" w] fst_getImageBuffer [of cfg e "p + 1" w2] by simp
  ultimately show ?thesis
    using g1 g2 g3 by (simp add: contextWindow_def split: sum.splits)
qed

lemma window_built:
  assumes "1 \<le> p" "p \<le> totalPages cfg" "\<forall>q err. converter e q \<noteq> ConvertThrows err"
  shows "\<exists>a b c w3. contextWindow cfg e p w = (Inr (a, b, c), w3) \<and> docs w3 = docs w \<and>
      events w3 = events w @ map Convert (requested cfg p) \<and>
      fst (getImageBuffer cfg e (p - 1) w) = Inr a \<and> fst (getImageBuffer cfg e p w) = Inr b \<and>
      fst (getImageBuffer cfg e (p + 1) w) = Inr c"
proof -
  obtain a where a: "fst (getImageBuffer cfg e (p - 1) w) = Inr a"
    using getImageBuffer_no_throw assms(3) by blast
  obtain b where b: "fst (getImageBuffer cfg e p w) = Inr b"
    using getImageBuffer_no_throw assms(3) by blast
  obtain c where c: "fst (getImageBuffer cfg e (p + 1) w) = Inr c"
    using getImageBuffer_no_throw assms(3) by blast
  have "fst (contextWindow cfg e p w) = Inr (a, b, c)"
    using a b c by (simp add: fst_contextWindow)
  then obtain w3 where cw: "contextWindow cfg e p w = (Inr (a, b, c), w3)"
    by (cases "contextWindow cfg e p w") auto
  from contextWindow_events [OF cw assms(1,2)]
  have "events w3 = events w @ map Convert (requested cfg p)" by auto
  moreover have "docs w3 = docs w" using cw by (rule contextWindow_docs)
  ultimately show ?thesis using cw a b c by blast
qed

lemma attemptOnce_no_image:
  assumes "1 \<le> p" "p \<le> totalPages cfg" "converter e p = Png stem []"
    and "\<forall>q err. converter e q \<noteq> ConvertThrows err"
  shows "\<exists>w3. attemptOnce cfg e p w =
           (Inl (new_Error ''Seitenbild konnte nicht extrahiert werden.''), w3) \<and>
         docs w3 = docs w \<and> events w3 = events w @ map Convert (requested cfg p)"
proof -
  from window_built [OF assms(1,2,4), of w] obtain a b c w3 where
    cw: "contextWindow cfg e p w = (Inr (a, b, c), w3)" "docs w3 = docs w"
      "events w3 = events w @ map Convert (requested cfg p)"
      "fst (getImageBuffer cfg e p w) = Inr b"
    by blast
  have "b = None" using cw(4) assms(1-3) by (simp add: fst_getImageBuffer)
  with cw(1) have "attemptOnce cfg e p w =
      (Inl (new_Error ''Seitenbild konnte nicht extrahiert werden.''), w3)"
    by (simp add: attemptOnce_def)
  with cw(2,3) show ?thesis by blast
qed

lemma attemptOnce_window:
  assumes "contextWindow cfg e p w = (Inr (a, Some b, c), w3)"
  shows "attemptOnce cfg e p w =
     (case processPageWithGemini cfg e [a, Some b, c] of
        Inl err \<Rightarrow> (Inl err, w3)
      | Inr ocrContent \<Rightarrow> recordPage cfg p ocrContent w3)"
proof (cases "processPageWithGemini cfg e [a, Some b, c]")
  case (Inl err)
  then have "\<not> isQuotaError err" by (rule processPageWithGemini_not_quota)
  with assms Inl show ?thesis by (simp add: attemptOnce_def)
next
  case (Inr ocrContent)
  with assms show ?thesis by (simp add: attemptOnce_def)
qed

lemma processPageWithGemini_unparsable:
  assumes "GEMINI_API_KEY cfg" "generateContent e (imageParts bufs) = GenResult responseText"
    and "responseText = None \<or> (\<exists>t. responseText = Some t \<and> JSON_parse cfg t = None)"
  shows "processPageWithGemini cfg e bufs = Inl (new_Error ''API-Anfrage fehlgeschlagen.'')"
  using assms by (auto simp: processPageWithGemini_def parseResponse_def)

lemma processPageWithGemini_parsed:
  assumes "GEMINI_API_KEY cfg" "generateContent e (imageParts bufs) = GenResult (Some t)"
    and "JSON_parse cfg t = Some j"
  shows "processPageWithGemini cfg e bufs = Inr (content_of j)"
  using assms by (simp add: processPageWithGemini_def parseResponse_def)

lemma write_chunks_strings:
  "write_chunks cfg (map JString ss) written = (written @ concat ss, None)"
  by (induction ss arbitrary: written) (simp_all add: chunk_bytes_def)

lemma recordPage_strings:
  assumes "readFile MAIN_TEX w = Some m"
  shows "recordPage cfg p (JArray (map JString ss)) w =
     (Inr (), log (Recorded p)
        (writeFile MAIN_TEX (updateMainTex p m) (writeFile (pageTexName p) (concat ss) w)))"
  using assms main_not_page [of p]
  by (simp add: recordPage_def fs_writeFile_def write_chunks_strings)

lemma readFile_main_cong: "docs w' = docs w \<Longrightarrow> readFile MAIN_TEX w' = readFile MAIN_TEX w"
  by (simp add: readFile_main_docs)

lemma retryLoop_three_failures:
  assumes "attemptOnce cfg e1 p (log (Attempt p 1) v) = (Inl err1, v1)"
    and "\<not> isQuotaError err1"
    and "attemptOnce cfg e2 p (log (Attempt p 2) (log (Failed p 1 err1) v1)) = (Inl err2, v2)"
    and "\<not> isQuotaError err2"
    and "attemptOnce cfg e3 p (log (Attempt p 3) (log (Failed p 2 err2) v2)) = (Inl err3, v3)"
    and "\<not> isQuotaError err3"
  shows "retryLoop cfg p 1 (e1 # e2 # e3 # rest) v = Some (False, log (Failed p 3 err3) v3, rest)"
proof -
  have m: "(1::nat) \<le> MAX_RETRIES" "2 \<le> MAX_RETRIES" "3 \<le> MAX_RETRIES" "MAX_RETRIES < 4"
    by (simp_all add: MAX_RETRIES_def)
  have n: "(1::nat) + 1 = 2" "(2::nat) + 1 = 3" "(3::nat) + 1 = 4" by simp_all
  have "retryLoop cfg p 1 (e1 # e2 # e3 # rest) v
      = retryLoop cfg p 2 (e2 # e3 # rest) (log (Failed p 1 err1) v1)"
    using retryLoop_counted [OF m(1) assms(1,2), of "e2 # e3 # rest"] by (simp only: n)
  also have "\<dots> = retryLoop cfg p 3 (e3 # rest) (log (Failed p 2 err2) v2)"
    using retryLoop_counted [OF m(2) assms(3,4), of "e3 # rest"] by (simp only: n)
  also have "\<dots> = retryLoop cfg p 4 rest (log (Failed p 3 err3) v3)"
    using retryLoop_counted [OF m(3) assms(5,6), of rest] by (simp only: n)
  also have "\<dots> = Some (False, log (Failed p 3 err3) v3, rest)"
    by (rule retryLoop_exhausted [OF m(4)])
  finally show ?thesis .
qed

lemma three_counted_failures:
  assumes f1: "\<And>w. \<exists>w3. attemptOnce cfg e1 p w = (Inl err1, w3) \<and> docs w3 = docs w \<and>
                 events w3 = events w @ map Convert qs"
    and f2: "\<And>w. \<exists>w3. attemptOnce cfg e2 p w = (Inl err2, w3) \<and> docs w3 = docs w \<and>
                 events w3 = events w @ map Convert qs"
    and f3: "\<And>w. \<exists>w3. attemptOnce cfg e3 p w = (Inl err3, w3) \<and> docs w3 = docs w \<and>
                 events w3 = events w @ map Convert qs"
    and nq: "\<not> isQuotaError err1" "\<not> isQuotaError err2" "\<not> isQuotaError err3"
  shows "\<exists>w'. retryLoop cfg p 1 (e1 # e2 # e3 # rest) w = Some (False, w', rest) \<and>
      docs w' = docs w \<and>
      events w' = events w @
        Attempt p 1 # map Convert qs @ Failed p 1 err1 #
        Attempt p 2 # map Convert qs @ Failed p 2 err2 #
        Attempt p 3 # map Convert qs @ [Failed p 3 err3]"
proof -
  from f1 [of "log (Attempt p 1) w"] obtain v1 where
    v1: "attemptOnce cfg e1 p (log (Attempt p 1) w) = (Inl err1, v1)" "docs v1 = docs w"
      "events v1 = events w @ Attempt p 1 # map Convert qs"
    by auto
  from f2 [of "log (Attempt p 2) (log (Failed p 1 err1) v1)"] obtain v2 where
    v2: "attemptOnce cfg e2 p (log (Attempt p 2) (log (Failed p 1 err1) v1)) = (Inl err2, v2)"
      "docs v2 = docs v1"
      "events v2 = events v1 @ Failed p 1 err1 # Attempt p 2 # map Convert qs"
    by auto
  from f3 [of "log (Attempt p 3) (log (Failed p 2 err2) v2)"] obtain v3 where
    v3: "attemptOnce cfg e3 p (log (Attempt p 3) (log (Failed p 2 err2) v2)) = (Inl err3, v3)"
      "docs v3 = docs v2"
      "events v3 = events v2 @ Failed p 2 err2 # Attempt p 3 # map Convert qs"
    by auto
  have "retryLoop cfg p 1 (e1 # e2 # e3 # rest) w = Some (False, log (Failed p 3 err3) v3, rest)"
    using v1(1) nq(1) v2(1) nq(2) v3(1) nq(3) by (rule retryLoop_three_failures)
  moreover have "docs (log (Failed p 3 err3) v3) = docs w" using v1(2) v2(2) v3(2) by simp
  moreover have "events (log (Failed p 3 err3) v3) = events w @
        Attempt p 1 # map Convert qs @ Failed p 1 err1 #
        Attempt p 2 # map Convert qs @ Failed p 2 err2 #
        Attempt p 3 # map Convert qs @ [Failed p 3 err3]"
    using v1(3) v2(3) v3(3) by simp
  ultimately show ?thesis by blast
qed

lemma page_gives_up:
  assumes "i < totalPages cfg"
    and "retryLoop cfg (i + 1) 1 envs (log (Begin (i + 1)) w) = Some (False, w1, envs')"
  shows "pageLoop cfg i envs w = Some (log (Notify (failMessage (i + 1))) w1)"
  by (subst pageLoop.simps) (simp only: assms if_True option.case prod.case not_False_eq_True)

text \<open>
  C10. The resume computation reads only the names that match \<open>page<digits>.tex\<close>
  exactly: the result is that of the listing with every other name removed, a name that
  does not match can be taken out of the listing anywhere without changing the result, and
  neither \<open>main.tex\<close> nor a PNG file matches.
\<close>

theorem resume_ignores_other_files:
  "getLastProcessedPageByTex files = getLastProcessedPageByTex (filter is_page_tex files) \<and>
   (\<not> is_page_tex f \<longrightarrow>
      getLastProcessedPageByTex (xs @ f # ys) = getLastProcessedPageByTex (xs @ ys)) \<and>
   (is_page_tex f \<longleftrightarrow> (\<exists>ds. ds \<noteq> [] \<and> list_all is_digit ds \<and> f = ''page'' @ ds @ ''.tex'')) \<and>
   \<not> is_page_tex MAIN_TEX \<and> \<not> is_page_tex (stem @ ''.png'')"
proof -
  have "getLastProcessedPageByTex files = getLastProcessedPageByTex (filter is_page_tex files)"
    by (simp add: getLastProcessedPageByTex_def)
  moreover have "\<not> is_page_tex f \<longrightarrow>
      getLastProcessedPageByTex (xs @ f # ys) = getLastProcessedPageByTex (xs @ ys)"
    by (simp add: getLast_ignores)
  moreover have "is_page_tex f \<longleftrightarrow> (\<exists>ds. ds \<noteq> [] \<and> list_all is_digit ds \<and> f = ''page'' @ ds @ ''.tex'')"
    by (simp add: is_page_tex_iff list_all_iff)
  ultimately show ?thesis using not_page_tex_main not_page_tex_png by blast
qed

theorem resume_ignores_other_files_witness:
  "getLastProcessedPageByTex ([''page2.tex''] @ ''main.tex'' # [''untitled.3.png'', ''page10.tex''])
     = getLastProcessedPageByTex ([''page2.tex''] @ [''untitled.3.png'', ''page10.tex'']) \<and>
   getLastProcessedPageByTex [''page2.tex'', ''untitled.3.png'', ''page10.tex''] = Inr 10"
proof -
  have h: "\<not> is_page_tex ''main.tex''" by code_simp
  have "getLastProcessedPageByTex ([''page2.tex''] @ ''main.tex'' # [''untitled.3.png'', ''page10.tex''])
     = getLastProcessedPageByTex ([''page2.tex''] @ [''untitled.3.png'', ''page10.tex''])"
    using resume_ignores_other_files [of "[]" "''main.tex''" "[''page2.tex'']" "[''untitled.3.png'', ''page10.tex'']" "[]"] h
    by blast
  moreover have "getLastProcessedPageByTex [''page2.tex'', ''untitled.3.png'', ''page10.tex''] = Inr 10"
    by code_simp
  ultimately show ?thesis by blast
qed

lemma imageParts_window:
  "imageParts [a, Some c, b] =
     (case a of None \<Rightarrow> [] | Some x \<Rightarrow> [x]) @ [c] @ (case b of None \<Rightarrow> [] | Some y \<Rightarrow> [y])"
  by (simp add: imageParts_def split: option.splits)

lemma contextWindow_new_events:
  assumes "1 \<le> pageNum" "pageNum \<le> totalPages cfg"
  shows "\<exists>qs. prefix qs (requested cfg pageNum) \<and>
     drop (length (events w)) (events (snd (contextWindow cfg e pageNum w))) = map Convert qs"
proof -
  obtain r w' where cw: "contextWindow cfg e pageNum w = (r, w')" by fastforce
  from contextWindow_events [OF cw assms] show ?thesis using cw by auto
qed

text \<open>
  C5. Building the context window of page \<open>pageNum\<close>, with \<open>1 \<le> pageNum \<le> totalPages\<close>:
  the converter is only ever called for pages of \<open>requested\<close>, which are \<open>pageNum - 1\<close> when
  it is at least 1, \<open>pageNum\<close>, and \<open>pageNum + 1\<close> when it is at most \<open>totalPages\<close>;
  when no call of the converter throws, it is called for exactly these pages, in this order,
  and the window is built; when the converter gives a non-empty image for every page, the
  previous slot is absent exactly for page 1, the next slot is absent exactly for the last
  page, and the current slot is always present. A page out of range gives an absent slot
  without a call and without an error, and absent slots are left out of the images sent.
\<close>

theorem context_window_requests:
  assumes "1 \<le> pageNum" "pageNum \<le> totalPages cfg"
  shows "(\<forall>q. Convert q \<in> set (drop (length (events w)) (events (snd (contextWindow cfg e pageNum w))))
            \<longrightarrow> q \<in> set (requested cfg pageNum)) \<and>
         ((\<forall>q err. converter e q \<noteq> ConvertThrows err) \<longrightarrow>
            (\<exists>win. fst (contextWindow cfg e pageNum w) = Inr win) \<and>
            events (snd (contextWindow cfg e pageNum w)) = events w @ map Convert (requested cfg pageNum)) \<and>
         ((\<forall>q. \<exists>stem. converter e q = Png stem (img q)) \<and> (\<forall>q. img q \<noteq> []) \<longrightarrow>
            fst (contextWindow cfg e pageNum w) =
              Inr (if 1 \<le> pageNum - 1 then Some (img (pageNum - 1)) else None,
                   Some (img pageNum),
                   if pageNum + 1 \<le> totalPages cfg then Some (img (pageNum + 1)) else None)) \<and>
         getImageBuffer cfg e 0 w = (Inr None, w) \<and>
         getImageBuffer cfg e (totalPages cfg + 1) w = (Inr None, w) \<and>
         imageParts [None, Some c, None] = [c] \<and>
         imageParts [None, Some c, Some n] = [c, n] \<and>
         imageParts [Some p, Some c, None] = [p, c] \<and>
         imageParts [Some p, Some c, Some n] = [p, c, n]"
proof -
  obtain r w' where cw: "contextWindow cfg e pageNum w = (r, w')" by fastforce
  from contextWindow_events [OF cw assms] obtain qs where
    qs: "events w' = events w @ map Convert qs" "prefix qs (requested cfg pageNum)"
      "(\<exists>win. r = Inr win) \<longrightarrow> qs = requested cfg pageNum" by blast
  have a: "\<forall>q. Convert q \<in> set (drop (length (events w)) (events (snd (contextWindow cfg e pageNum w))))
            \<longrightarrow> q \<in> set (requested cfg pageNum)"
    using cw qs(1,2) set_mono_prefix by fastforce
  have b: "(\<forall>q err. converter e q \<noteq> ConvertThrows err) \<longrightarrow>
            (\<exists>win. fst (contextWindow cfg e pageNum w) = Inr win) \<and>
            events (snd (contextWindow cfg e pageNum w)) = events w @ map Convert (requested cfg pageNum)"
    using contextWindow_no_throw [of e cfg pageNum w] cw qs(1,3) by auto
  have c: "(\<forall>q. \<exists>stem. converter e q = Png stem (img q)) \<and> (\<forall>q. img q \<noteq> []) \<longrightarrow>
            fst (contextWindow cfg e pageNum w) =
              Inr (if 1 \<le> pageNum - 1 then Some (img (pageNum - 1)) else None,
                   Some (img pageNum),
                   if pageNum + 1 \<le> totalPages cfg then Some (img (pageNum + 1)) else None)"
    using contextWindow_images [of e img pageNum cfg w] assms by blast
  have d: "getImageBuffer cfg e 0 w = (Inr None, w)"
    "getImageBuffer cfg e (totalPages cfg + 1) w = (Inr None, w)"
    by (simp_all add: getImageBuffer_def)
  have i: "imageParts [None, Some c, None] = [c]" "imageParts [None, Some c, Some n] = [c, n]"
    "imageParts [Some p, Some c, None] = [p, c]" "imageParts [Some p, Some c, Some n] = [p, c, n]"
    by (simp_all add: imageParts_def)
  show ?thesis using a b c d i by blast
qed

theorem context_window_requests_witness:
  "fst (contextWindow (demo_cfg 3) (demo_env (GenResult (Some ''ok''))) 1 empty_world)
     = Inr (None, Some ''IMG'', Some ''IMG'') \<and>
   events (snd (contextWindow (demo_cfg 3) (demo_env (GenResult (Some ''ok''))) 1 empty_world))
     = [Convert 1, Convert 2] \<and>
   fst (contextWindow (demo_cfg 3) (demo_env (GenResult (Some ''ok''))) 3 empty_world)
     = Inr (Some ''IMG'', Some ''IMG'', None)"
proof -
  let ?e = "demo_env (GenResult (Some ''ok''))"
  have n: "(1::nat) \<le> 1" "1 \<le> totalPages (demo_cfg 3)" "(1::nat) \<le> 3" "3 \<le> totalPages (demo_cfg 3)"
    by (simp_all add: demo_cfg_def)
  have nt: "\<forall>q err. converter ?e q \<noteq> ConvertThrows err" by (simp add: demo_env_def)
  have im: "(\<forall>q. \<exists>stem. converter ?e q = Png stem ((\<lambda>q. ''IMG'') q)) \<and> (\<forall>q::nat. (\<lambda>q. ''IMG'') q \<noteq> [])"
    by (simp add: demo_env_def)
  have r: "requested (demo_cfg 3) 1 = [1, 2]" by (simp add: requested_def demo_cfg_def)
  have ev: "events empty_world = []" by (simp add: empty_world_def)
  from context_window_requests [OF n(1,2), of empty_world ?e "\<lambda>q. ''IMG''"] nt im r ev
  have "fst (contextWindow (demo_cfg 3) ?e 1 empty_world) = Inr (None, Some ''IMG'', Some ''IMG'')"
    "events (snd (contextWindow (demo_cfg 3) ?e 1 empty_world)) = [Convert 1, Convert 2]"
    by (simp_all add: demo_cfg_def)
  moreover from context_window_requests [OF n(3,4), of empty_world ?e "\<lambda>q. ''IMG''"] im
  have "fst (contextWindow (demo_cfg 3) ?e 3 empty_world) = Inr (Some ''IMG'', Some ''IMG'', None)"
    by (simp add: demo_cfg_def)
  ultimately show ?thesis by blast
qed

text \<open>
  C9. A page whose PNG file is empty gives an absent image. When this is the current page
  and no call of the converter throws (the three images are fetched before the current
  one is tested), the attempt ends with the error of the missing page image, and nothing
  is written. This error is not a quota error, so the attempt is counted: three such
  attempts in a row use up the retry budget, the loop over the attempts ends without
  success, and the loop over the pages stops with the notification. When the current page
  has an image, an empty image of a neighbour makes its slot absent and raises no error:
  the attempt goes on with the images that are there, and a well-formed answer of the
  service is recorded.
\<close>

theorem zero_length_image:
  assumes "1 \<le> pageNum" "pageNum \<le> totalPages cfg"
    and "\<forall>e\<in>set [e1, e2, e3]. (\<exists>stem. converter e pageNum = Png stem []) \<and>
            (\<forall>q err. converter e q \<noteq> ConvertThrows err)"
  shows "(\<forall>q stem. converter e q = Png stem [] \<longrightarrow> fst (getImageBuffer cfg e q w) = Inr None) \<and>
         \<not> isQuotaError (new_Error ''Seitenbild konnte nicht extrahiert werden.'') \<and>
         (\<forall>e'\<in>set [e1, e2, e3]. \<forall>v. \<exists>v'.
            attemptOnce cfg e' pageNum v
              = (Inl (new_Error ''Seitenbild konnte nicht extrahiert werden.''), v') \<and>
            docs v' = docs v) \<and>
         (\<exists>w'. retryLoop cfg pageNum 1 (e1 # e2 # e3 # rest) w = Some (False, w', rest) \<and>
            docs w' = docs w \<and>
            events w' = events w @
              Attempt pageNum 1 # map Convert (requested cfg pageNum) @
              Failed pageNum 1 (new_Error ''Seitenbild konnte nicht extrahiert werden.'') #
              Attempt pageNum 2 # map Convert (requested cfg pageNum) @
              Failed pageNum 2 (new_Error ''Seitenbild konnte nicht extrahiert werden.'') #
              Attempt pageNum 3 # map Convert (requested cfg pageNum) @
              [Failed pageNum 3 (new_Error ''Seitenbild konnte nicht extrahiert werden.'')]) \<and>
         (\<exists>w'. pageLoop cfg (pageNum - 1) (e1 # e2 # e3 # rest) w = Some w' \<and>
            docs w' = docs w \<and>
            events w' = events w @
              Begin pageNum #
              Attempt pageNum 1 # map Convert (requested cfg pageNum) @
              Failed pageNum 1 (new_Error ''Seitenbild konnte nicht extrahiert werden.'') #
              Attempt pageNum 2 # map Convert (requested cfg pageNum) @
              Failed pageNum 2 (new_Error ''Seitenbild konnte nicht extrahiert werden.'') #
              Attempt pageNum 3 # map Convert (requested cfg pageNum) @
              [Failed pageNum 3 (new_Error ''Seitenbild konnte nicht extrahiert werden.''),
               Notify (failMessage pageNum)]) \<and>
         ((\<forall>q err. converter e q \<noteq> ConvertThrows err) \<and> converter e pageNum = Png s b \<and> b \<noteq> [] \<longrightarrow>
            (\<exists>a c w3.
               fst (getImageBuffer cfg e (pageNum - 1) w) = Inr a \<and>
               fst (getImageBuffer cfg e (pageNum + 1) w) = Inr c \<and>
               contextWindow cfg e pageNum w = (Inr (a, Some b, c), w3) \<and>
               docs w3 = docs w \<and>
               events w3 = events w @ map Convert (requested cfg pageNum) \<and>
               attemptOnce cfg e pageNum w =
                 (case processPageWithGemini cfg e [a, Some b, c] of
                    Inl err \<Rightarrow> (Inl err, w3)
                  | Inr ocrContent \<Rightarrow> recordPage cfg pageNum ocrContent w3) \<and>
               (\<forall>t j frag m.
                  GEMINI_API_KEY cfg \<and>
                  generateContent e (imageParts [a, Some b, c]) = GenResult (Some t) \<and>
                  JSON_parse cfg t = Some j \<and> content_of j = JString frag \<and>
                  readFile MAIN_TEX w = Some m \<longrightarrow>
                    attemptOnce cfg e pageNum w =
                      (Inr (), log (Recorded pageNum)
                         (writeFile MAIN_TEX (updateMainTex pageNum m)
                            (writeFile (pageTexName pageNum) frag w3)))))) \<and>
         imageParts [None, Some b, None] = [b] \<and>
         imageParts [None, Some b, Some n] = [b, n] \<and>
         imageParts [Some p, Some b, None] = [p, b]"
proof -
  let ?err = "new_Error ''Seitenbild konnte nicht extrahiert werden.''"
  let ?qs = "requested cfg pageNum"
  have f: "\<exists>w3. attemptOnce cfg e' pageNum v = (Inl ?err, w3) \<and> docs w3 = docs v \<and>
      events w3 = events v @ map Convert ?qs"
    if "e' \<in> set [e1, e2, e3]" for e' v
  proof -
    from that assms(3) obtain stem where "converter e' pageNum = Png stem []"
      "\<forall>q err. converter e' q \<noteq> ConvertThrows err" by blast
    with assms(1,2) show ?thesis by (intro attemptOnce_no_image)
  qed
  have c1: "\<forall>q stem. converter e q = Png stem [] \<longrightarrow> fst (getImageBuffer cfg e q w) = Inr None"
    by (auto simp: fst_getImageBuffer)
  have c2: "\<not> isQuotaError ?err" by (rule not_quota_no_image)
  have c3: "\<forall>e'\<in>set [e1, e2, e3]. \<forall>v. \<exists>v'. attemptOnce cfg e' pageNum v = (Inl ?err, v') \<and>
      docs v' = docs v"
    using f by blast
  have f1: "\<And>v. \<exists>w3. attemptOnce cfg e1 pageNum v = (Inl ?err, w3) \<and> docs w3 = docs v \<and>
      events w3 = events v @ map Convert ?qs" by (rule f) simp
  have f2: "\<And>v. \<exists>w3. attemptOnce cfg e2 pageNum v = (Inl ?err, w3) \<and> docs w3 = docs v \<and>
      events w3 = events v @ map Convert ?qs" by (rule f) simp
  have f3: "\<And>v. \<exists>w3. attemptOnce cfg e3 pageNum v = (Inl ?err, w3) \<and> docs w3 = docs v \<and>
      events w3 = events v @ map Convert ?qs" by (rule f) simp
  have c4: "\<exists>w'. retryLoop cfg pageNum 1 (e1 # e2 # e3 # rest) v = Some (False, w', rest) \<and>
      docs w' = docs v \<and>
      events w' = events v @
        Attempt pageNum 1 # map Convert ?qs @ Failed pageNum 1 ?err #
        Attempt pageNum 2 # map Convert ?qs @ Failed pageNum 2 ?err #
        Attempt pageNum 3 # map Convert ?qs @ [Failed pageNum 3 ?err]" for v
    using f1 f2 f3 c2 c2 c2 by (rule three_counted_failures)
  have c5: "\<exists>w'. pageLoop cfg (pageNum - 1) (e1 # e2 # e3 # rest) w = Some w' \<and>
      docs w' = docs w \<and>
      events w' = events w @
        Begin pageNum #
        Attempt pageNum 1 # map Convert ?qs @ Failed pageNum 1 ?err #
        Attempt pageNum 2 # map Convert ?qs @ Failed pageNum 2 ?err #
        Attempt pageNum 3 # map Convert ?qs @ [Failed pageNum 3 ?err, Notify (failMessage pageNum)]"
  proof -
    have i: "pageNum - 1 < totalPages cfg" "pageNum - 1 + 1 = pageNum" using assms(1,2) by simp_all
    from c4 [of "log (Begin pageNum) w"] obtain w1 where w1:
      "retryLoop cfg pageNum 1 (e1 # e2 # e3 # rest) (log (Begin pageNum) w) = Some (False, w1, rest)"
      "docs w1 = docs w"
      "events w1 = events w @ Begin pageNum #
        Attempt pageNum 1 # map Convert ?qs @ Failed pageNum 1 ?err #
        Attempt pageNum 2 # map Convert ?qs @ Failed pageNum 2 ?err #
        Attempt pageNum 3 # map Convert ?qs @ [Failed pageNum 3 ?err]"
      by auto
    have "pageLoop cfg (pageNum - 1) (e1 # e2 # e3 # rest) w
        = Some (log (Notify (failMessage (pageNum - 1 + 1))) w1)"
      by (rule page_gives_up [OF i(1)]) (simp only: i(2) w1(1))
    then show ?thesis using w1(2,3) i(2) by simp
  qed
  have c6: "(\<forall>q err. converter e q \<noteq> ConvertThrows err) \<and> converter e pageNum = Png s b \<and> b \<noteq> [] \<longrightarrow>
      (\<exists>a c w3.
         fst (getImageBuffer cfg e (pageNum - 1) w) = Inr a \<and>
         fst (getImageBuffer cfg e (pageNum + 1) w) = Inr c \<and>
         contextWindow cfg e pageNum w = (Inr (a, Some b, c), w3) \<and>
         docs w3 = docs w \<and>
         events w3 = events w @ map Convert ?qs \<and>
         attemptOnce cfg e pageNum w =
           (case processPageWithGemini cfg e [a, Some b, c] of
              Inl err \<Rightarrow> (Inl err, w3)
            | Inr ocrContent \<Rightarrow> recordPage cfg pageNum ocrContent w3) \<and>
         (\<forall>t j frag m.
            GEMINI_API_KEY cfg \<and>
            generateContent e (imageParts [a, Some b, c]) = GenResult (Some t) \<and>
            JSON_parse cfg t = Some j \<and> content_of j = JString frag \<and>
            readFile MAIN_TEX w = Some m \<longrightarrow>
              attemptOnce cfg e pageNum w =
                (Inr (), log (Recorded pageNum)
                   (writeFile MAIN_TEX (updateMainTex pageNum m)
                      (writeFile (pageTexName pageNum) frag w3)))))"
  proof (intro impI, elim conjE)
    assume h: "\<forall>q err. converter e q \<noteq> ConvertThrows err" "converter e pageNum = Png s b" "b \<noteq> []"
    from window_built [OF assms(1,2) h(1), of w] obtain a b' c w3 where
      cw: "contextWindow cfg e pageNum w = (Inr (a, b', c), w3)" "docs w3 = docs w"
        "events w3 = events w @ map Convert ?qs"
        "fst (getImageBuffer cfg e (pageNum - 1) w) = Inr a"
        "fst (getImageBuffer cfg e pageNum w) = Inr b'"
        "fst (getImageBuffer cfg e (pageNum + 1) w) = Inr c"
      by blast
    have b': "b' = Some b" using cw(5) h(2,3) assms(1,2) by (simp add: fst_getImageBuffer)
    note cw1 = cw(1) [unfolded b']
    have at: "attemptOnce cfg e pageNum w =
        (case processPageWithGemini cfg e [a, Some b, c] of
           Inl err \<Rightarrow> (Inl err, w3)
         | Inr ocrContent \<Rightarrow> recordPage cfg pageNum ocrContent w3)"
      using cw1 by (rule attemptOnce_window)
    have ok: "attemptOnce cfg e pageNum w =
        (Inr (), log (Recorded pageNum)
           (writeFile MAIN_TEX (updateMainTex pageNum m) (writeFile (pageTexName pageNum) frag w3)))"
      if k: "GEMINI_API_KEY cfg"
        "generateContent e (imageParts [a, Some b, c]) = GenResult (Some t)"
        "JSON_parse cfg t = Some j" "content_of j = JString frag" "readFile MAIN_TEX w = Some m"
      for t j frag m
    proof -
      have "processPageWithGemini cfg e [a, Some b, c] = Inr (JString frag)"
        using processPageWithGemini_parsed [OF k(1,2,3)] k(4) by simp
      moreover have "readFile MAIN_TEX w3 = Some m"
        using readFile_main_cong [OF cw(2)] k(5) by simp
      ultimately show ?thesis unfolding at by (simp add: recordPage_string)
    qed
    show "\<exists>a c w3.
         fst (getImageBuffer cfg e (pageNum - 1) w) = Inr a \<and>
         fst (getImageBuffer cfg e (pageNum + 1) w) = Inr c \<and>
         contextWindow cfg e pageNum w = (Inr (a, Some b, c), w3) \<and>
         docs w3 = docs w \<and>
         events w3 = events w @ map Convert ?qs \<and>
         attemptOnce cfg e pageNum w =
           (case processPageWithGemini cfg e [a, Some b, c] of
              Inl err \<Rightarrow> (Inl err, w3)
            | Inr ocrContent \<Rightarrow> recordPage cfg pageNum ocrContent w3) \<and>
         (\<forall>t j frag m.
            GEMINI_API_KEY cfg \<and>
            generateContent e (imageParts [a, Some b, c]) = GenResult (Some t) \<and>
            JSON_parse cfg t = Some j \<and> content_of j = JString frag \<and>
            readFile MAIN_TEX w = Some m \<longrightarrow>
              attemptOnce cfg e pageNum w =
                (Inr (), log (Recorded pageNum)
                   (writeFile MAIN_TEX (updateMainTex pageNum m)
                      (writeFile (pageTexName pageNum) frag w3))))"
      using cw(4,6) cw1 cw(2,3) at ok by (intro exI [of _ a] exI [of _ c] exI [of _ w3]) blast
  qed
  have c7: "imageParts [None, Some b, None] = [b]" "imageParts [None, Some b, Some n] = [b, n]"
    "imageParts [Some p, Some b, None] = [p, b]"
    by (simp_all add: imageParts_def)
  from c1 c2 c3 c4 [of w] c5 c6 c7 show ?thesis by (intro conjI)
qed

theorem zero_length_image_witness:
  "(\<exists>w'. retryLoop (demo_cfg 3) 2 1 [blank_env 2 [], blank_env 2 [], blank_env 2 []] small_world
            = Some (False, w', []) \<and>
         docs w' = docs small_world \<and>
         events w' =
           [Attempt 2 1, Convert 1, Convert 2, Convert 3,
            Failed 2 1 (new_Error ''Seitenbild konnte nicht extrahiert werden.''),
            Attempt 2 2, Convert 1, Convert 2, Convert 3,
            Failed 2 2 (new_Error ''Seitenbild konnte nicht extrahiert werden.''),
            Attempt 2 3, Convert 1, Convert 2, Convert 3,
            Failed 2 3 (new_Error ''Seitenbild konnte nicht extrahiert werden.'')]) \<and>
   fst (getImageBuffer (demo_cfg 3) (blank_env 1 [''IMG2'', ''IMG3'']) 1 small_world) = Inr None \<and>
   (\<exists>w3. attemptOnce (demo_cfg 3) (blank_env 1 [''IMG2'', ''IMG3'']) 2 small_world
            = (Inr (), log (Recorded 2)
                 (writeFile MAIN_TEX (updateMainTex 2 ''% pages\<newline>'')
                    (writeFile (pageTexName 2) ''TEXT'' w3))) \<and>
          events w3 = [Convert 1, Convert 2, Convert 3])"
proof -
  let ?cfg = "demo_cfg 3"
  let ?e = "blank_env 1 [''IMG2'', ''IMG3'']"
  have sn: "show_nat (Suc 0) = ''1''" "show_nat 2 = ''2''" "show_nat 3 = ''3''"
    by (simp_all add: show_nat.simps)
  have n: "(1::nat) \<le> 2" "2 \<le> totalPages ?cfg" by (simp_all add: demo_cfg_def)
  have h: "\<forall>e\<in>set [blank_env 2 [], blank_env 2 [], blank_env 2 []].
      (\<exists>stem. converter e 2 = Png stem []) \<and> (\<forall>q err. converter e q \<noteq> ConvertThrows err)"
    by (simp add: blank_env_def)
  have rq: "requested ?cfg 2 = [1, 2, 3]" by (simp add: requested_def demo_cfg_def)
  have ev: "events small_world = []" by (simp add: small_world_def)
  note t = zero_length_image [OF n h, of ?e small_world "[]" "''untitled.2''" "''IMG2''"]
  from t have ra: "\<exists>w'. retryLoop ?cfg 2 1 [blank_env 2 [], blank_env 2 [], blank_env 2 []] small_world
            = Some (False, w', []) \<and>
         docs w' = docs small_world \<and>
         events w' =
           [Attempt 2 1, Convert 1, Convert 2, Convert 3,
            Failed 2 1 (new_Error ''Seitenbild konnte nicht extrahiert werden.''),
            Attempt 2 2, Convert 1, Convert 2, Convert 3,
            Failed 2 2 (new_Error ''Seitenbild konnte nicht extrahiert werden.''),
            Attempt 2 3, Convert 1, Convert 2, Convert 3,
            Failed 2 3 (new_Error ''Seitenbild konnte nicht extrahiert werden.'')]"
    unfolding rq ev by simp
  have c1: "converter ?e 1 = Png ''untitled.1'' []" by (simp add: blank_env_def sn)
  from t c1 have rb: "fst (getImageBuffer ?cfg ?e 1 small_world) = Inr None" by blast
  have pre: "(\<forall>q err. converter ?e q \<noteq> ConvertThrows err) \<and> converter ?e 2 = Png ''untitled.2'' ''IMG2'' \<and>
      ''IMG2'' \<noteq> []"
    by (simp add: blank_env_def sn)
  with t obtain a c w3 where w3:
    "fst (getImageBuffer ?cfg ?e (2 - 1) small_world) = Inr a"
    "fst (getImageBuffer ?cfg ?e (2 + 1) small_world) = Inr c"
    "events w3 = events small_world @ map Convert (requested ?cfg 2)"
    "\<forall>t j frag m.
        GEMINI_API_KEY ?cfg \<and>
        generateContent ?e (imageParts [a, Some ''IMG2'', c]) = GenResult (Some t) \<and>
        JSON_parse ?cfg t = Some j \<and> content_of j = JString frag \<and>
        readFile MAIN_TEX small_world = Some m \<longrightarrow>
          attemptOnce ?cfg ?e 2 small_world =
            (Inr (), log (Recorded 2)
               (writeFile MAIN_TEX (updateMainTex 2 m) (writeFile (pageTexName 2) frag w3)))"
    by blast
  have "(2::nat) - 1 = 1" by simp
  with w3(1) rb have a: "a = None" by simp
  have "fst (getImageBuffer ?cfg ?e (2 + 1) small_world) = Inr (Some ''IMG3'')"
    by (simp add: fst_getImageBuffer demo_cfg_def blank_env_def sn)
  with w3(2) have c: "c = Some ''IMG3''" by simp
  have g: "GEMINI_API_KEY ?cfg \<and>
      generateContent ?e (imageParts [a, Some ''IMG2'', c]) = GenResult (Some ok_text) \<and>
      JSON_parse ?cfg ok_text = Some (JObject [(''content'', JString ''TEXT'')]) \<and>
      content_of (JObject [(''content'', JString ''TEXT'')]) = JString ''TEXT'' \<and>
      readFile MAIN_TEX small_world = Some ''% pages\<newline>''"
    unfolding a c
    by (simp add: demo_cfg_def blank_env_def imageParts_def demo_parse_def ok_text_def
        readFile_def small_world_def MAIN_TEX_def)
  from w3(4) g have "attemptOnce ?cfg ?e 2 small_world =
      (Inr (), log (Recorded 2)
         (writeFile MAIN_TEX (updateMainTex 2 ''% pages\<newline>'')
            (writeFile (pageTexName 2) ''TEXT'' w3)))"
    by blast
  moreover have "events w3 = [Convert 1, Convert 2, Convert 3]" using w3(3) by (simp add: rq ev)
  ultimately show ?thesis using ra rb by blast
qed

text \<open>
  C2. The service answers every attempt at page 1 of a one-page document by throwing a quota
  error that names a delay of 5 seconds; \<open>main.tex\<close> exists. \<open>processPageWithGemini\<close> replaces
  the thrown error by its own, so the driver never sees the quota error: no wait takes
  place, each failure is counted, and after three attempts the page has failed.
\<close>

theorem quota_failure_consumes_budget:
  "isQuotaError quota_text \<and> retrySeconds quota_text = 5 \<and>
   processPageWithGemini (demo_cfg 1) (demo_env (GenThrows quota_text)) [None, Some ''IMG'', None]
     = Inl (new_Error ''API-Anfrage fehlgeschlagen.'') \<and>
   map_option (map_sum id events)
     (processPdfDocument (demo_cfg 1)
        [demo_env (GenThrows quota_text), demo_env (GenThrows quota_text),
         demo_env (GenThrows quota_text)]
        small_world)
   = Some (Inr
       [Begin 1,
        Attempt 1 1, Convert 1, Failed 1 1 ''Error: API-Anfrage fehlgeschlagen.'',
        Attempt 1 2, Convert 1, Failed 1 2 ''Error: API-Anfrage fehlgeschlagen.'',
        Attempt 1 3, Convert 1, Failed 1 3 ''Error: API-Anfrage fehlgeschlagen.'',
        Notify ''Seite 1 konnte nach 3 Versuchen nicht verarbeitet werden.''])"
  by code_simp

text \<open>
  C8, as stated, fails: the response \<open>{}\<close> is valid JSON without a \<open>content\<close> field,
  and the page is recorded with an empty fragment.
\<close>

theorem response_without_content_recorded:
  "fst (attemptOnce (demo_cfg 1) (demo_env (GenResult (Some ''{}''))) 1 small_world)
     = Inr () \<and>
   readFile (pageTexName 1)
     (snd (attemptOnce (demo_cfg 1) (demo_env (GenResult (Some ''{}''))) 1 small_world))
     = Some [] \<and>
   events (snd (attemptOnce (demo_cfg 1) (demo_env (GenResult (Some ''{}''))) 1 small_world))
     = [Convert 1, Recorded 1]"
  by code_simp

lemma malformed_cases:
  assumes "malformed cfg rt"
  obtains (unparsable) "rt = None \<or> (\<exists>t. rt = Some t \<and> JSON_parse cfg t = None)"
    | (rejected) t j where "rt = Some t" "JSON_parse cfg t = Some j"
        "\<forall>frag. content_of j \<noteq> JString frag" "\<forall>chunks. content_of j \<noteq> JArray chunks"
        "\<not> isQuotaError (invalid_data cfg (content_of j))"
proof (cases rt)
  case None
  then show ?thesis using unparsable by simp
next
  case (Some t)
  show ?thesis
  proof (cases "JSON_parse cfg t")
    case None
    with Some show ?thesis using unparsable by simp
  next
    case j: (Some j)
    from assms Some j show ?thesis
      by (intro rejected [of t j]) (auto simp: malformed_def split: json.splits)
  qed
qed

lemma good_images:
  assumes "1 \<le> p" "p \<le> totalPages cfg" "\<forall>q. \<exists>stem buf. converter e q = Png stem buf \<and> buf \<noteq> []"
  shows "\<exists>a b c w3. contextWindow cfg e p v = (Inr (a, Some b, c), w3) \<and> docs w3 = docs v \<and>
      events w3 = events v @ map Convert (requested cfg p)"
proof -
  have nt: "\<forall>q err. converter e q \<noteq> ConvertThrows err" using assms(3) by (metis convert_outcome.distinct(3))
  from window_built [OF assms(1,2) nt, of v] obtain a b' c w3 where
    cw: "contextWindow cfg e p v = (Inr (a, b', c), w3)" "docs w3 = docs v"
      "events w3 = events v @ map Convert (requested cfg p)"
      "fst (getImageBuffer cfg e p v) = Inr b'"
    by blast
  from assms(3) obtain stem buf where "converter e p = Png stem buf" "buf \<noteq> []" by blast
  then have "b' = Some buf" using cw(4) assms(1,2) by (simp add: fst_getImageBuffer)
  with cw show ?thesis by blast
qed

lemma malformed_attempt:
  assumes "1 \<le> p" "p \<le> totalPages cfg" "GEMINI_API_KEY cfg"
    and "\<forall>q. \<exists>stem buf. converter e q = Png stem buf \<and> buf \<noteq> []"
    and "\<forall>imgs. generateContent e imgs = GenResult rt" "malformed cfg rt"
  shows "\<exists>err. \<not> isQuotaError err \<and>
     (\<forall>v. \<exists>w3. attemptOnce cfg e p v = (Inl err, w3) \<and> docs w3 = docs v \<and>
         events w3 = events v @ map Convert (requested cfg p))"
  using assms(6)
proof (cases rule: malformed_cases)
  case unparsable
  let ?err = "new_Error ''API-Anfrage fehlgeschlagen.''"
  have "\<exists>w3. attemptOnce cfg e p v = (Inl ?err, w3) \<and> docs w3 = docs v \<and>
         events w3 = events v @ map Convert (requested cfg p)" for v
  proof -
    from good_images [OF assms(1,2,4), of v] obtain a b c w3 where
      cw: "contextWindow cfg e p v = (Inr (a, Some b, c), w3)" "docs w3 = docs v"
        "events w3 = events v @ map Convert (requested cfg p)"
      by blast
    have "processPageWithGemini cfg e [a, Some b, c] = Inl ?err"
      using assms(3) assms(5) [rule_format] unparsable by (rule processPageWithGemini_unparsable)
    then have "attemptOnce cfg e p v = (Inl ?err, w3)"
      using attemptOnce_window [OF cw(1)] by simp
    with cw(2,3) show ?thesis by blast
  qed
  with not_quota_api_failed show ?thesis by blast
next
  case (rejected t j)
  let ?err = "invalid_data cfg (content_of j)"
  have "\<exists>w3. attemptOnce cfg e p v = (Inl ?err, w3) \<and> docs w3 = docs v \<and>
         events w3 = events v @ map Convert (requested cfg p)" for v
  proof -
    from good_images [OF assms(1,2,4), of v] obtain a b c w3 where
      cw: "contextWindow cfg e p v = (Inr (a, Some b, c), w3)" "docs w3 = docs v"
        "events w3 = events v @ map Convert (requested cfg p)"
      by blast
    have "generateContent e (imageParts [a, Some b, c]) = GenResult (Some t)"
      using assms(5) rejected(1) by simp
    with assms(3) have "processPageWithGemini cfg e [a, Some b, c] = Inr (content_of j)"
      using rejected(2) by (rule processPageWithGemini_parsed)
    then have "attemptOnce cfg e p v = (Inl ?err, w3)"
      using attemptOnce_window [OF cw(1)] recordPage_rejected [OF rejected(3,4)] by simp
    with cw(2,3) show ?thesis by blast
  qed
  with rejected(5) show ?thesis by blast
qed

lemma parsed_attempt:
  assumes "1 \<le> p" "p \<le> totalPages cfg" "GEMINI_API_KEY cfg"
    and "\<forall>q. \<exists>stem buf. converter e q = Png stem buf \<and> buf \<noteq> []"
    and "\<forall>imgs. generateContent e imgs = GenResult (Some t)" "JSON_parse cfg t = Some j"
  shows "\<exists>w3. attemptOnce cfg e p v = recordPage cfg p (content_of j) w3 \<and> docs w3 = docs v \<and>
      events w3 = events v @ map Convert (requested cfg p)"
proof -
  from good_images [OF assms(1,2,4), of v] obtain a b c w3 where
    cw: "contextWindow cfg e p v = (Inr (a, Some b, c), w3)" "docs w3 = docs v"
      "events w3 = events v @ map Convert (requested cfg p)"
    by blast
  have "generateContent e (imageParts [a, Some b, c]) = GenResult (Some t)"
    using assms(5) by simp
  with assms(3) have "processPageWithGemini cfg e [a, Some b, c] = Inr (content_of j)"
    using assms(6) by (rule processPageWithGemini_parsed)
  then have "attemptOnce cfg e p v = recordPage cfg p (content_of j) w3"
    using attemptOnce_window [OF cw(1)] by simp
  with cw(2,3) show ?thesis by blast
qed

text \<open>
  C8, amended. The key is set and the converter gives an image for every page. A response
  is malformed when it has no text, when \<open>JSON.parse\<close> throws on its text, or when the
  \<open>content\<close> of the parsed value is neither a string nor an array, so that the write of
  the fragment rejects it (with an error text that has no quota marker). For the first two
  kinds the inner handler of the recognition call raises its parse error. An attempt with
  a malformed response fails, writes nothing, and is counted: three of them in a row use up
  the retry budget, the loop over the attempts ends without success and the loop over the
  pages stops with the notification. A response that parses is handed to the write with
  its \<open>content\<close>, which is the empty string when the parsed value is not an object, has
  no \<open>content\<close>, or has the \<open>content\<close> \<open>null\<close>: such a page is recorded
  with an empty fragment. An array of strings is recorded as their concatenation.
\<close>

theorem unparsable_response_counted:
  assumes "1 \<le> pageNum" "pageNum \<le> totalPages cfg" "GEMINI_API_KEY cfg"
    and "\<forall>e\<in>set [e1, e2, e3].
           (\<forall>q. \<exists>stem buf. converter e q = Png stem buf \<and> buf \<noteq> []) \<and>
           (\<exists>responseText. (\<forall>imgs. generateContent e imgs = GenResult responseText) \<and>
              malformed cfg responseText)"
  shows "(\<forall>responseText.
            responseText = None \<or> (\<exists>t. responseText = Some t \<and> JSON_parse cfg t = None) \<longrightarrow>
            parseResponse cfg responseText =
              Inl (new_Error ''Antwort konnte nicht als JSON-Objekt interpretiert werden.'')) \<and>
         (\<forall>c v. (\<forall>frag. c \<noteq> JString frag) \<and> (\<forall>chunks. c \<noteq> JArray chunks) \<longrightarrow>
            recordPage cfg pageNum c v = (Inl (invalid_data cfg c), v)) \<and>
         (\<forall>e'\<in>set [e1, e2, e3]. \<exists>err. \<not> isQuotaError err \<and>
            (\<forall>v. \<exists>v'. attemptOnce cfg e' pageNum v = (Inl err, v') \<and> docs v' = docs v)) \<and>
         (\<exists>w' err1 err2 err3.
            retryLoop cfg pageNum 1 (e1 # e2 # e3 # rest) w = Some (False, w', rest) \<and>
            docs w' = docs w \<and>
            events w' = events w @
              Attempt pageNum 1 # map Convert (requested cfg pageNum) @ Failed pageNum 1 err1 #
              Attempt pageNum 2 # map Convert (requested cfg pageNum) @ Failed pageNum 2 err2 #
              Attempt pageNum 3 # map Convert (requested cfg pageNum) @ [Failed pageNum 3 err3]) \<and>
         (\<exists>w' err1 err2 err3.
            pageLoop cfg (pageNum - 1) (e1 # e2 # e3 # rest) w = Some w' \<and>
            docs w' = docs w \<and>
            events w' = events w @
              Begin pageNum #
              Attempt pageNum 1 # map Convert (requested cfg pageNum) @ Failed pageNum 1 err1 #
              Attempt pageNum 2 # map Convert (requested cfg pageNum) @ Failed pageNum 2 err2 #
              Attempt pageNum 3 # map Convert (requested cfg pageNum) @
              [Failed pageNum 3 err3, Notify (failMessage pageNum)]) \<and>
         ((\<forall>q. \<exists>stem buf. converter e q = Png stem buf \<and> buf \<noteq> []) \<and>
          (\<forall>imgs. generateContent e imgs = GenResult (Some t)) \<and> JSON_parse cfg t = Some j \<and>
          readFile MAIN_TEX w = Some m \<and>
          (content_of j = JString frag \<or> (\<exists>ss. content_of j = JArray (map JString ss) \<and> frag = concat ss)) \<longrightarrow>
            (\<exists>w3. attemptOnce cfg e pageNum w =
                     (Inr (), log (Recorded pageNum)
                        (writeFile MAIN_TEX (updateMainTex pageNum m)
                           (writeFile (pageTexName pageNum) frag w3))) \<and>
                   docs w3 = docs w \<and>
                   events w3 = events w @ map Convert (requested cfg pageNum))) \<and>
         ((\<forall>kvs. j' \<noteq> JObject kvs) \<longrightarrow> content_of j' = JString []) \<and>
         (map_of kvs ''content'' = None \<or> map_of kvs ''content'' = Some JNull \<longrightarrow>
            content_of (JObject kvs) = JString []) \<and>
         (map_of kvs ''content'' = Some c' \<and> c' \<noteq> JNull \<longrightarrow> content_of (JObject kvs) = c')"
proof -
  let ?qs = "requested cfg pageNum"
  have f: "\<exists>err. \<not> isQuotaError err \<and>
     (\<forall>v. \<exists>w3. attemptOnce cfg e' pageNum v = (Inl err, w3) \<and> docs w3 = docs v \<and>
         events w3 = events v @ map Convert ?qs)"
    if "e' \<in> set [e1, e2, e3]" for e'
  proof -
    from that assms(4) obtain rt where
      "\<forall>q. \<exists>stem buf. converter e' q = Png stem buf \<and> buf \<noteq> []"
      "\<forall>imgs. generateContent e' imgs = GenResult rt" "malformed cfg rt"
      by blast
    with assms(1,2,3) show ?thesis by (intro malformed_attempt)
  qed
  have c1: "\<forall>responseText.
      responseText = None \<or> (\<exists>t. responseText = Some t \<and> JSON_parse cfg t = None) \<longrightarrow>
      parseResponse cfg responseText =
        Inl (new_Error ''Antwort konnte nicht als JSON-Objekt interpretiert werden.'')"
    by (auto simp: parseResponse_def)
  have c2: "\<forall>c v. (\<forall>frag. c \<noteq> JString frag) \<and> (\<forall>chunks. c \<noteq> JArray chunks) \<longrightarrow>
      recordPage cfg pageNum c v = (Inl (invalid_data cfg c), v)"
    using recordPage_rejected by blast
  have c3: "\<forall>e'\<in>set [e1, e2, e3]. \<exists>err. \<not> isQuotaError err \<and>
      (\<forall>v. \<exists>v'. attemptOnce cfg e' pageNum v = (Inl err, v') \<and> docs v' = docs v)"
    using f by blast
  from f [of e1] obtain err1 where f1: "\<not> isQuotaError err1"
    "\<And>v. \<exists>w3. attemptOnce cfg e1 pageNum v = (Inl err1, w3) \<and> docs w3 = docs v \<and>
         events w3 = events v @ map Convert ?qs"
    by auto
  from f [of e2] obtain err2 where f2: "\<not> isQuotaError err2"
    "\<And>v. \<exists>w3. attemptOnce cfg e2 pageNum v = (Inl err2, w3) \<and> docs w3 = docs v \<and>
         events w3 = events v @ map Convert ?qs"
    by auto
  from f [of e3] obtain err3 where f3: "\<not> isQuotaError err3"
    "\<And>v. \<exists>w3. attemptOnce cfg e3 pageNum v = (Inl err3, w3) \<and> docs w3 = docs v \<and>
         events w3 = events v @ map Convert ?qs"
    by auto
  have r: "\<exists>w'. retryLoop cfg pageNum 1 (e1 # e2 # e3 # rest) v = Some (False, w', rest) \<and>
      docs w' = docs v \<and>
      events w' = events v @
        Attempt pageNum 1 # map Convert ?qs @ Failed pageNum 1 err1 #
        Attempt pageNum 2 # map Convert ?qs @ Failed pageNum 2 err2 #
        Attempt pageNum 3 # map Convert ?qs @ [Failed pageNum 3 err3]" for v
    using f1(2) f2(2) f3(2) f1(1) f2(1) f3(1) by (rule three_counted_failures)
  from r [of w] have c4: "\<exists>w' err1 err2 err3.
      retryLoop cfg pageNum 1 (e1 # e2 # e3 # rest) w = Some (False, w', rest) \<and>
      docs w' = docs w \<and>
      events w' = events w @
        Attempt pageNum 1 # map Convert ?qs @ Failed pageNum 1 err1 #
        Attempt pageNum 2 # map Convert ?qs @ Failed pageNum 2 err2 #
        Attempt pageNum 3 # map Convert ?qs @ [Failed pageNum 3 err3]"
    by blast
  have c5: "\<exists>w' err1 err2 err3.
      pageLoop cfg (pageNum - 1) (e1 # e2 # e3 # rest) w = Some w' \<and>
      docs w' = docs w \<and>
      events w' = events w @
        Begin pageNum #
        Attempt pageNum 1 # map Convert ?qs @ Failed pageNum 1 err1 #
        Attempt pageNum 2 # map Convert ?qs @ Failed pageNum 2 err2 #
        Attempt pageNum 3 # map Convert ?qs @ [Failed pageNum 3 err3, Notify (failMessage pageNum)]"
  proof -
    have i: "pageNum - 1 < totalPages cfg" "pageNum - 1 + 1 = pageNum" using assms(1,2) by simp_all
    from r [of "log (Begin pageNum) w"] obtain w1 where w1:
      "retryLoop cfg pageNum 1 (e1 # e2 # e3 # rest) (log (Begin pageNum) w) = Some (False, w1, rest)"
      "docs w1 = docs w"
      "events w1 = events w @ Begin pageNum #
        Attempt pageNum 1 # map Convert ?qs @ Failed pageNum 1 err1 #
        Attempt pageNum 2 # map Convert ?qs @ Failed pageNum 2 err2 #
        Attempt pageNum 3 # map Convert ?qs @ [Failed pageNum 3 err3]"
      by auto
    have "pageLoop cfg (pageNum - 1) (e1 # e2 # e3 # rest) w
        = Some (log (Notify (failMessage (pageNum - 1 + 1))) w1)"
      by (rule page_gives_up [OF i(1)]) (simp only: i(2) w1(1))
    then have "pageLoop cfg (pageNum - 1) (e1 # e2 # e3 # rest) w
        = Some (log (Notify (failMessage pageNum)) w1) \<and>
      docs (log (Notify (failMessage pageNum)) w1) = docs w \<and>
      events (log (Notify (failMessage pageNum)) w1) = events w @
        Begin pageNum #
        Attempt pageNum 1 # map Convert ?qs @ Failed pageNum 1 err1 #
        Attempt pageNum 2 # map Convert ?qs @ Failed pageNum 2 err2 #
        Attempt pageNum 3 # map Convert ?qs @ [Failed pageNum 3 err3, Notify (failMessage pageNum)]"
      using w1(2,3) i(2) by simp
    then show ?thesis by blast
  qed
  have c6: "(\<forall>q. \<exists>stem buf. converter e q = Png stem buf \<and> buf \<noteq> []) \<and>
      (\<forall>imgs. generateContent e imgs = GenResult (Some t)) \<and> JSON_parse cfg t = Some j \<and>
      readFile MAIN_TEX w = Some m \<and>
      (content_of j = JString frag \<or> (\<exists>ss. content_of j = JArray (map JString ss) \<and> frag = concat ss)) \<longrightarrow>
        (\<exists>w3. attemptOnce cfg e pageNum w =
                 (Inr (), log (Recorded pageNum)
                    (writeFile MAIN_TEX (updateMainTex pageNum m)
                       (writeFile (pageTexName pageNum) frag w3))) \<and>
               docs w3 = docs w \<and>
               events w3 = events w @ map Convert ?qs)"
  proof (intro impI, elim conjE)
    assume h: "\<forall>q. \<exists>stem buf. converter e q = Png stem buf \<and> buf \<noteq> []"
      "\<forall>imgs. generateContent e imgs = GenResult (Some t)" "JSON_parse cfg t = Some j"
      "readFile MAIN_TEX w = Some m"
      "content_of j = JString frag \<or> (\<exists>ss. content_of j = JArray (map JString ss) \<and> frag = concat ss)"
    from parsed_attempt [OF assms(1,2,3) h(1,2,3), of w] obtain w3 where
      w3: "attemptOnce cfg e pageNum w = recordPage cfg pageNum (content_of j) w3"
        "docs w3 = docs w" "events w3 = events w @ map Convert ?qs"
      by blast
    have m3: "readFile MAIN_TEX w3 = Some m" using readFile_main_cong [OF w3(2)] h(4) by simp
    from h(5) have "recordPage cfg pageNum (content_of j) w3 =
        (Inr (), log (Recorded pageNum)
           (writeFile MAIN_TEX (updateMainTex pageNum m) (writeFile (pageTexName pageNum) frag w3)))"
      using recordPage_string [OF m3] recordPage_strings [OF m3] by auto
    with w3 show "\<exists>w3. attemptOnce cfg e pageNum w =
                 (Inr (), log (Recorded pageNum)
                    (writeFile MAIN_TEX (updateMainTex pageNum m)
                       (writeFile (pageTexName pageNum) frag w3))) \<and>
               docs w3 = docs w \<and>
               events w3 = events w @ map Convert ?qs"
      by (intro exI [of _ w3]) simp
  qed
  have c7: "(\<forall>kvs. j' \<noteq> JObject kvs) \<longrightarrow> content_of j' = JString []"
    by (cases j') simp_all
  have c8: "map_of kvs ''content'' = None \<or> map_of kvs ''content'' = Some JNull \<longrightarrow>
      content_of (JObject kvs) = JString []"
    by auto
  have c9: "map_of kvs ''content'' = Some c' \<and> c' \<noteq> JNull \<longrightarrow> content_of (JObject kvs) = c'"
    by (cases c') auto
  from c1 c2 c3 c4 c5 c6 c7 c8 c9 show ?thesis by (intro conjI)
qed

theorem unparsable_response_counted_witness:
  "(\<exists>w' err1 err2 err3.
      pageLoop (demo_cfg 1) 0
        [demo_env (GenResult None), demo_env (GenResult (Some ''<html>'')),
         demo_env (GenResult (Some five_text))] small_world = Some w' \<and>
      docs w' = docs small_world \<and>
      events w' =
        [Begin 1,
         Attempt 1 1, Convert 1, Failed 1 1 err1,
         Attempt 1 2, Convert 1, Failed 1 2 err2,
         Attempt 1 3, Convert 1, Failed 1 3 err3,
         Notify (failMessage 1)]) \<and>
   (\<exists>w3. attemptOnce (demo_cfg 1) (demo_env (GenResult (Some ''{}''))) 1 small_world
            = (Inr (), log (Recorded 1)
                 (writeFile MAIN_TEX (updateMainTex 1 ''% pages\<newline>'')
                    (writeFile (pageTexName 1) [] w3))) \<and>
          events w3 = [Convert 1])"
proof -
  let ?cfg = "demo_cfg 1"
  let ?e1 = "demo_env (GenResult None)"
  let ?e2 = "demo_env (GenResult (Some ''<html>''))"
  let ?e3 = "demo_env (GenResult (Some five_text))"
  let ?e = "demo_env (GenResult (Some ''{}''))"
  have n: "(1::nat) \<le> 1" "1 \<le> totalPages ?cfg" "GEMINI_API_KEY ?cfg" by (simp_all add: demo_cfg_def)
  have img: "\<forall>q. \<exists>stem buf. converter (demo_env g) q = Png stem buf \<and> buf \<noteq> []" for g
    by (simp add: demo_env_def)
  have gen: "\<forall>imgs. generateContent (demo_env g) imgs = g" for g
    by (simp add: demo_env_def)
  have m1: "malformed ?cfg None" by (simp add: malformed_def)
  have m2: "malformed ?cfg (Some ''<html>'')" by code_simp
  have m3: "malformed ?cfg (Some five_text)" by code_simp
  have h: "\<forall>e\<in>set [?e1, ?e2, ?e3].
      (\<forall>q. \<exists>stem buf. converter e q = Png stem buf \<and> buf \<noteq> []) \<and>
      (\<exists>responseText. (\<forall>imgs. generateContent e imgs = GenResult responseText) \<and>
         malformed ?cfg responseText)"
    using img gen m1 m2 m3 by auto
  have rq: "requested ?cfg 1 = [1]" by (simp add: requested_def demo_cfg_def)
  have ev: "events small_world = []" by (simp add: small_world_def)
  note t = unparsable_response_counted [OF n h, where w = small_world and rest = "[]" and e = ?e
      and t = "''{}''" and j = "JObject []" and m = "''% pages\<newline>''" and frag = "[]"]
  have z: "(1::nat) - 1 = 0" by simp
  from t have a: "\<exists>w' err1 err2 err3.
      pageLoop ?cfg 0 [?e1, ?e2, ?e3] small_world = Some w' \<and>
      docs w' = docs small_world \<and>
      events w' =
        [Begin 1,
         Attempt 1 1, Convert 1, Failed 1 1 err1,
         Attempt 1 2, Convert 1, Failed 1 2 err2,
         Attempt 1 3, Convert 1, Failed 1 3 err3,
         Notify (failMessage 1)]"
    unfolding rq ev z by simp
  have pre: "(\<forall>q. \<exists>stem buf. converter ?e q = Png stem buf \<and> buf \<noteq> []) \<and>
      (\<forall>imgs. generateContent ?e imgs = GenResult (Some ''{}'')) \<and>
      JSON_parse ?cfg ''{}'' = Some (JObject []) \<and>
      readFile MAIN_TEX small_world = Some ''% pages\<newline>'' \<and>
      (content_of (JObject []) = JString [] \<or>
       (\<exists>ss. content_of (JObject []) = JArray (map JString ss) \<and> [] = concat ss))"
    using img gen
    by (simp add: demo_cfg_def demo_parse_def readFile_def small_world_def MAIN_TEX_def)
  with t have "\<exists>w3. attemptOnce ?cfg ?e 1 small_world =
        (Inr (), log (Recorded 1)
           (writeFile MAIN_TEX (updateMainTex 1 ''% pages\<newline>'') (writeFile (pageTexName 1) [] w3))) \<and>
      docs w3 = docs small_world \<and>
      events w3 = events small_world @ map Convert (requested ?cfg 1)"
    by blast
  then have b: "\<exists>w3. attemptOnce ?cfg ?e 1 small_world =
        (Inr (), log (Recorded 1)
           (writeFile MAIN_TEX (updateMainTex 1 ''% pages\<newline>'') (writeFile (pageTexName 1) [] w3))) \<and>
      events w3 = [Convert 1]"
    unfolding rq ev by auto
  from a b show ?thesis by (rule conjI)
qed

text \<open>
  C1, as stated, fails: the only page fragment has the index \<open>2 ^ 53 + 1\<close>, which
  \<open>parseInt\<close> rounds to \<open>2 ^ 53\<close>, so that the last processed page is not the greatest
  index.
\<close>

theorem resume_rounds_large_index:
  "is_page_tex large_name \<and> page_index large_name = 9007199254740993 \<and>
   getLastProcessedPageByTex [large_name] = Inr 9007199254740992"
proof -
  have a: "is_page_tex large_name" unfolding large_name_def by code_simp
  have b: "page_index large_name = 9007199254740993"
    by (simp add: large_name_def page_index_def decimal_def digit_val_def is_digit_def)
  have "to_double 9007199254740993 = enat 9007199254740992"
    by (simp add: to_double_def bitlen.simps Let_def)
  then have "getLastProcessedPageByTex [large_name] = Inr 9007199254740992"
    using a b by (simp add: getLast_eq numeral_eq_enat)
  with a b show ?thesis by simp
qed

text \<open>
  C1, amended. \<open>P\<close> is the set of the indices of the page fragments in the output
  directory, and every index is below \<open>2 ^ 53\<close>. Then \<open>getLastProcessedPageByTex\<close>
  returns the greatest element of \<open>P\<close>, and 0 when \<open>P\<close> is empty; the result is the
  same for every listing with the same names, whatever their order. A run that returns
  begins with the page after that one, when the document has such a page, and processes no
  page otherwise. The index of a fragment is the number that the digits of its name
  denote, and the fragment of page \<open>q\<close> has the index \<open>q\<close>.
\<close>

theorem resume_start_page:
  assumes "P = page_index ` {f \<in> set (readdir w). is_page_tex f}" "\<forall>q\<in>P. q < 2 ^ 53"
  shows "getLastProcessedPageByTex (readdir w) = Inr (enat (if P = {} then 0 else Max P)) \<and>
         (\<forall>names. set names = set (readdir w) \<longrightarrow>
            getLastProcessedPageByTex names = getLastProcessedPageByTex (readdir w)) \<and>
         (\<forall>cfg envs r. processPdfDocument cfg envs w = Some r \<longrightarrow>
            (\<exists>w' evs. r = Inr w' \<and> events w' = events w @ evs \<and>
               (if (if P = {} then 0 else Max P) < totalPages cfg
                then \<exists>rest. evs = Begin ((if P = {} then 0 else Max P) + 1) # rest
                else evs = []))) \<and>
         (\<forall>ds. ds \<noteq> [] \<and> list_all is_digit ds \<longrightarrow>
            is_page_tex (''page'' @ ds @ ''.tex'') \<and> page_index (''page'' @ ds @ ''.tex'') = decimal ds) \<and>
         (\<forall>q. is_page_tex (pageTexName q) \<and> page_index (pageTexName q) = q)"
proof -
  let ?M = "if P = {} then 0 else Max P"
  have fin: "finite P" unfolding assms(1) by simp
  have lp: "lastPage w = ?M"
    unfolding lastPage_def assms(1) [symmetric] using fin by (auto simp: max_def)
  have lt: "lastPage w < 2 ^ 53"
    unfolding lp using assms(2) fin Max_in [of P] by auto
  have a: "getLastProcessedPageByTex (readdir w) = Inr (enat ?M)"
    using getLast_lastPage [OF lt] lp by simp
  have b: "\<forall>names. set names = set (readdir w) \<longrightarrow>
      getLastProcessedPageByTex names = getLastProcessedPageByTex (readdir w)"
    using getLast_set_cong by blast
  have c: "\<forall>cfg envs r. processPdfDocument cfg envs w = Some r \<longrightarrow>
      (\<exists>w' evs. r = Inr w' \<and> events w' = events w @ evs \<and>
         (if ?M < totalPages cfg then \<exists>rest. evs = Begin (?M + 1) # rest else evs = []))"
  proof (intro allI impI)
    fix cfg envs r
    assume run: "processPdfDocument cfg envs w = Some r"
    from run_start [of cfg envs w] lt obtain w1 where
      w1: "pageLoop cfg (lastPage w) envs (setupWorkspace w) = Some w1" "r = finalize w1"
      using run by (auto split: option.splits)
    have m0: "map_of (docs (setupWorkspace w)) MAIN_TEX \<noteq> None"
      using setupWorkspace_facts(2) [of w] by (simp add: readFile_main_docs)
    from pageLoop_events [OF w1(1) m0] obtain evs where evs:
      "events w1 = events (setupWorkspace w) @ evs"
      "if lastPage w < totalPages cfg then \<exists>rest. evs = Begin (lastPage w + 1) # rest else evs = []"
      "map_of (docs w1) MAIN_TEX \<noteq> None"
      by blast
    from evs(3) obtain m1 where "readFile MAIN_TEX w1 = Some m1" by (auto simp: readFile_main_docs)
    from finalize_facts [OF this] obtain w' where w': "finalize w1 = Inr w'" "events w' = events w1"
      by blast
    show "\<exists>w' evs. r = Inr w' \<and> events w' = events w @ evs \<and>
         (if ?M < totalPages cfg then \<exists>rest. evs = Begin (?M + 1) # rest else evs = [])"
      using w1(2) w' evs(1,2) unfolding lp
      by (intro exI [of _ w'] exI [of _ evs]) (simp add: setupWorkspace_facts)
  qed
  have d: "\<forall>ds. ds \<noteq> [] \<and> list_all is_digit ds \<longrightarrow>
      is_page_tex (''page'' @ ds @ ''.tex'') \<and> page_index (''page'' @ ds @ ''.tex'') = decimal ds"
  proof (intro allI impI, elim conjE)
    fix ds :: string
    assume ds: "ds \<noteq> []" "list_all is_digit ds"
    then have "is_page_tex (''page'' @ ds @ ''.tex'')"
      unfolding is_page_tex_iff by (auto simp: list_all_iff)
    moreover have "takeWhile is_digit (ds @ ''.tex'') = ds"
      using ds(2) by (simp add: takeWhile_digits_app list_all_iff)
    then have "page_index (''page'' @ ds @ ''.tex'') = decimal ds"
      by (simp add: page_index_def)
    ultimately show "is_page_tex (''page'' @ ds @ ''.tex'') \<and>
        page_index (''page'' @ ds @ ''.tex'') = decimal ds" ..
  qed
  have e: "\<forall>q. is_page_tex (pageTexName q) \<and> page_index (pageTexName q) = q"
    by (simp add: is_page_tex_pageTexName page_index_pageTexName)
  from a b c d e show ?thesis by (intro conjI)
qed

theorem resume_start_page_witness:
  "getLastProcessedPageByTex (readdir resume_world) = Inr 10 \<and>
   (\<exists>w' rest. processPdfDocument (demo_cfg 11) [demo_env (GenResult (Some ok_text))] resume_world
       = Some (Inr w') \<and> events w' = Begin 11 # rest)"
proof -
  have rd: "readdir resume_world = [''page2.tex'', ''main.tex'', ''page10.tex'', ''untitled.3.png'', ''page1.tex'']"
    by (simp add: resume_world_def readdir_def)
  have pt: "is_page_tex ''page2.tex''" "is_page_tex ''page10.tex''" "is_page_tex ''page1.tex''"
    "\<not> is_page_tex ''main.tex''" "\<not> is_page_tex ''untitled.3.png''"
    by code_simp+
  have pi: "page_index ''page2.tex'' = 2" "page_index ''page10.tex'' = 10" "page_index ''page1.tex'' = 1"
    by code_simp+
  have "{f \<in> set (readdir resume_world). is_page_tex f} = {''page2.tex'', ''page10.tex'', ''page1.tex''}"
    unfolding rd using pt by auto
  then have h: "{2, 10, 1} = page_index ` {f \<in> set (readdir resume_world). is_page_tex f}"
    using pi by simp
  have sf: "\<forall>q\<in>{2, 10, 1::nat}. q < 2 ^ 53" by simp
  have mx: "(if {2, 10, 1} = ({}::nat set) then 0 else Max {2, 10, 1}) = (10::nat)" by simp
  have ne: "processPdfDocument (demo_cfg 11) [demo_env (GenResult (Some ok_text))] resume_world \<noteq> None"
    by code_simp
  then obtain r where r: "processPdfDocument (demo_cfg 11) [demo_env (GenResult (Some ok_text))] resume_world = Some r"
    by auto
  have n: "(10::nat) < totalPages (demo_cfg 11)" by (simp add: demo_cfg_def)
  have ev: "events resume_world = []" by (simp add: resume_world_def)
  note t = resume_start_page [OF h sf, unfolded mx]
  from t have g: "getLastProcessedPageByTex (readdir resume_world) = Inr 10"
    by (simp add: numeral_eq_enat)
  from t have "\<forall>cfg envs r. processPdfDocument cfg envs resume_world = Some r \<longrightarrow>
      (\<exists>w' evs. r = Inr w' \<and> events w' = events resume_world @ evs \<and>
         (if 10 < totalPages cfg then \<exists>rest. evs = Begin (10 + 1) # rest else evs = []))"
    by (rule conjunct2 [THEN conjunct2, THEN conjunct1])
  with r obtain w' evs where w': "r = Inr w'" "events w' = events resume_world @ evs"
    "if 10 < totalPages (demo_cfg 11) then \<exists>rest. evs = Begin (10 + 1) # rest else evs = []"
    by blast
  from w'(3) n obtain rest where "evs = Begin 11 # rest" by auto
  with w'(1,2) r ev have "processPdfDocument (demo_cfg 11) [demo_env (GenResult (Some ok_text))] resume_world
       = Some (Inr w') \<and> events w' = Begin 11 # rest" by simp
  with g show ?thesis by blast
qed

text \<open>
  C3. In a run that returns, the console lines of failed attempts at a page carry the
  attempt numbers 1, 2, 3 in this order, each for an error that is not a quota error, and
  there are at most \<open>MAX_RETRIES = 3\<close> of them. When the third failure of a page is
  there, the events of the run end with it and with the notification for this page: no
  attempt follows, neither for this page nor for a later one. A notification is only ever sent
  in this way, and its message names the page and the number of attempts. A failure that is
  not a quota error adds one to the attempt counter, the loop ends without success once the
  counter is above \<open>MAX_RETRIES\<close>, and three such failures in a row make the loop over the
  pages return at once with the notification.
\<close>

theorem page_fails_after_max_attempts:
  assumes "processPdfDocument cfg envs w = Some r"
  shows "(\<exists>w' evs. r = Inr w' \<and> events w' = events w @ evs \<and>
            (\<forall>p. \<exists>n\<le>MAX_RETRIES + 1. failures p evs = [1..<n]) \<and>
            (\<forall>p err. Failed p MAX_RETRIES err \<in> set evs \<longrightarrow>
               (\<exists>pre. evs = pre @ [Failed p MAX_RETRIES err, Notify (failMessage p)])) \<and>
            (\<forall>msg. Notify msg \<in> set evs \<longrightarrow>
               (\<exists>pre p err. evs = pre @ [Failed p MAX_RETRIES err, Notify msg] \<and> msg = failMessage p)) \<and>
            (\<forall>p k err. Failed p k err \<in> set evs \<longrightarrow> \<not> isQuotaError err)) \<and>
         MAX_RETRIES = 3 \<and>
         failMessage p = ''Seite '' @ show_nat p @ '' konnte nach 3 Versuchen nicht verarbeitet werden.'' \<and>
         (attempt \<le> MAX_RETRIES \<and>
          attemptOnce cfg e p (log (Attempt p attempt) v) = (Inl err, v') \<and> \<not> isQuotaError err \<longrightarrow>
            retryLoop cfg p attempt (e # es) v =
              retryLoop cfg p (attempt + 1) es (log (Failed p attempt err) v')) \<and>
         retryLoop cfg p (MAX_RETRIES + 1) es v = Some (False, v, es) \<and>
         (i < totalPages cfg \<and>
          attemptOnce cfg e1 (i + 1) (log (Attempt (i + 1) 1) (log (Begin (i + 1)) v)) = (Inl err1, v1) \<and>
          \<not> isQuotaError err1 \<and>
          attemptOnce cfg e2 (i + 1) (log (Attempt (i + 1) 2) (log (Failed (i + 1) 1 err1) v1)) = (Inl err2, v2) \<and>
          \<not> isQuotaError err2 \<and>
          attemptOnce cfg e3 (i + 1) (log (Attempt (i + 1) 3) (log (Failed (i + 1) 2 err2) v2)) = (Inl err3, v3) \<and>
          \<not> isQuotaError err3 \<longrightarrow>
            pageLoop cfg i (e1 # e2 # e3 # rest) v =
              Some (log (Notify (failMessage (i + 1))) (log (Failed (i + 1) 3 err3) v3)))"
proof -
  from run_events_start [OF assms] obtain w' evs lo where ev:
    "r = Inr w'" "events w' = events w @ evs"
    "list_all (run_event lo (totalPages cfg)) evs"
    "\<forall>p. \<exists>n\<le>MAX_RETRIES + 1. failures p evs = [1..<n]" "halted evs"
    by blast
  have nq: "\<forall>p k err. Failed p k err \<in> set evs \<longrightarrow> \<not> isQuotaError err"
    using ev(3) by (auto simp: list_all_iff)
  have a: "\<exists>w' evs. r = Inr w' \<and> events w' = events w @ evs \<and>
      (\<forall>p. \<exists>n\<le>MAX_RETRIES + 1. failures p evs = [1..<n]) \<and>
      (\<forall>p err. Failed p MAX_RETRIES err \<in> set evs \<longrightarrow>
         (\<exists>pre. evs = pre @ [Failed p MAX_RETRIES err, Notify (failMessage p)])) \<and>
      (\<forall>msg. Notify msg \<in> set evs \<longrightarrow>
         (\<exists>pre p err. evs = pre @ [Failed p MAX_RETRIES err, Notify msg] \<and> msg = failMessage p)) \<and>
      (\<forall>p k err. Failed p k err \<in> set evs \<longrightarrow> \<not> isQuotaError err)"
    using ev(1,2,4) ev(5) [unfolded halted_def] nq by blast
  have b: "MAX_RETRIES = 3" by (simp add: MAX_RETRIES_def)
  have c: "failMessage p = ''Seite '' @ show_nat p @ '' konnte nach 3 Versuchen nicht verarbeitet werden.''"
    by (simp add: failMessage_def MAX_RETRIES_def show_nat.simps)
  have d: "attempt \<le> MAX_RETRIES \<and>
      attemptOnce cfg e p (log (Attempt p attempt) v) = (Inl err, v') \<and> \<not> isQuotaError err \<longrightarrow>
        retryLoop cfg p attempt (e # es) v =
          retryLoop cfg p (attempt + 1) es (log (Failed p attempt err) v')"
    using retryLoop_counted by blast
  have e: "retryLoop cfg p (MAX_RETRIES + 1) es v = Some (False, v, es)"
    by (rule retryLoop_exhausted) simp
  have f: "i < totalPages cfg \<and>
      attemptOnce cfg e1 (i + 1) (log (Attempt (i + 1) 1) (log (Begin (i + 1)) v)) = (Inl err1, v1) \<and>
      \<not> isQuotaError err1 \<and>
      attemptOnce cfg e2 (i + 1) (log (Attempt (i + 1) 2) (log (Failed (i + 1) 1 err1) v1)) = (Inl err2, v2) \<and>
      \<not> isQuotaError err2 \<and>
      attemptOnce cfg e3 (i + 1) (log (Attempt (i + 1) 3) (log (Failed (i + 1) 2 err2) v2)) = (Inl err3, v3) \<and>
      \<not> isQuotaError err3 \<longrightarrow>
        pageLoop cfg i (e1 # e2 # e3 # rest) v =
          Some (log (Notify (failMessage (i + 1))) (log (Failed (i + 1) 3 err3) v3))"
  proof (intro impI, elim conjE)
    assume h: "i < totalPages cfg"
      "attemptOnce cfg e1 (i + 1) (log (Attempt (i + 1) 1) (log (Begin (i + 1)) v)) = (Inl err1, v1)"
      "\<not> isQuotaError err1"
      "attemptOnce cfg e2 (i + 1) (log (Attempt (i + 1) 2) (log (Failed (i + 1) 1 err1) v1)) = (Inl err2, v2)"
      "\<not> isQuotaError err2"
      "attemptOnce cfg e3 (i + 1) (log (Attempt (i + 1) 3) (log (Failed (i + 1) 2 err2) v2)) = (Inl err3, v3)"
      "\<not> isQuotaError err3"
    have "retryLoop cfg (i + 1) 1 (e1 # e2 # e3 # rest) (log (Begin (i + 1)) v)
        = Some (False, log (Failed (i + 1) 3 err3) v3, rest)"
      using h(2-7) by (rule retryLoop_three_failures)
    with h(1) show "pageLoop cfg i (e1 # e2 # e3 # rest) v =
        Some (log (Notify (failMessage (i + 1))) (log (Failed (i + 1) 3 err3) v3))"
      by (rule page_gives_up)
  qed
  from a b c d e f show ?thesis by (intro conjI)
qed

theorem page_fails_after_max_attempts_witness:
  "\<exists>w' pre.
     processPdfDocument (demo_cfg 2)
       [demo_env (GenResult (Some ok_text)), demo_env (GenThrows ''Error: fetch failed''),
        demo_env (GenThrows ''Error: fetch failed''), demo_env (GenResult None)]
       small_world = Some (Inr w') \<and>
     events w' = pre @ [Failed 2 3 (new_Error ''API-Anfrage fehlgeschlagen.''), Notify (failMessage 2)]"
proof -
  let ?run = "processPdfDocument (demo_cfg 2)
       [demo_env (GenResult (Some ok_text)), demo_env (GenThrows ''Error: fetch failed''),
        demo_env (GenThrows ''Error: fetch failed''), demo_env (GenResult None)]
       small_world"
  have ne: "?run \<noteq> None" by code_simp
  then obtain r where r: "?run = Some r" by auto
  have mem: "(case ?run of Some (Inr w) \<Rightarrow>
      Failed 2 3 (new_Error ''API-Anfrage fehlgeschlagen.'') \<in> set (events w) | _ \<Rightarrow> False)"
    by code_simp
  have ev: "events small_world = []" by (simp add: small_world_def)
  have m3: "MAX_RETRIES = 3" by (simp add: MAX_RETRIES_def)
  note t = page_fails_after_max_attempts [OF r, THEN conjunct1]
  then obtain w' evs where w':
    "r = Inr w'" "events w' = events small_world @ evs"
    "\<forall>p err. Failed p MAX_RETRIES err \<in> set evs \<longrightarrow>
       (\<exists>pre. evs = pre @ [Failed p MAX_RETRIES err, Notify (failMessage p)])"
    by blast
  have run: "?run = Some (Inr w')" using r w'(1) by simp
  have evs: "events w' = evs" using w'(2) ev by simp
  from mem have "Failed 2 3 (new_Error ''API-Anfrage fehlgeschlagen.'') \<in> set (events w')"
    unfolding run by simp
  then have "Failed 2 MAX_RETRIES (new_Error ''API-Anfrage fehlgeschlagen.'') \<in> set evs"
    unfolding m3 evs .
  with w'(3) obtain pre where
    "evs = pre @ [Failed 2 MAX_RETRIES (new_Error ''API-Anfrage fehlgeschlagen.''), Notify (failMessage 2)]"
    by blast
  then have "events w' = pre @ [Failed 2 3 (new_Error ''API-Anfrage fehlgeschlagen.''), Notify (failMessage 2)]"
    unfolding evs m3 .
  with run show ?thesis by blast
qed

lemma small_manifest_facts:
  "last_occurrence ''% pages\<newline>'' end_document = None" "includeRefs ''% pages\<newline>'' = []"
  by code_simp+

lemma manifest_inv_no_refs:
  assumes "readFile MAIN_TEX w = Some ''% pages\<newline>''"
  shows "manifest_inv w"
proof -
  have "marker_ok ''% pages\<newline>''"
    unfolding marker_ok_def by (simp only: small_manifest_facts option.case)
  moreover have "sorted_wrt (<) (includeRefs ''% pages\<newline>'')"
    "list_all (\<lambda>r. r \<le> lastPage w) (includeRefs ''% pages\<newline>'')"
    unfolding small_manifest_facts by simp_all
  ultimately show ?thesis
    unfolding manifest_inv_def assms by (simp only: option.case simp_thms)
qed

lemma manifest_inv_small: "manifest_inv small_world"
  by (rule manifest_inv_no_refs) (simp add: small_world_def readFile_def MAIN_TEX_def)

lemma manifest_inv_interrupted: "manifest_inv interrupted_world"
  by (rule manifest_inv_no_refs) (simp add: interrupted_world_def readFile_def MAIN_TEX_def)

lemma sorted_less_distinct: "sorted_wrt (<) (xs::nat list) \<Longrightarrow> distinct xs"
  by (induction xs) auto

lemma count_list_distinct: "distinct xs \<Longrightarrow> x \<in> set xs \<Longrightarrow> count_list xs x = 1"
  by (induction xs) auto

text \<open>
  C4. The invariant of the master document \<open>manifest_inv\<close> says that the closing marker,
  when there is one, occurs once and is followed by white space only, that the page
  references are in strictly increasing order, and that none is beyond the last page
  fragment. It holds when \<open>main.tex\<close> does not exist yet. A run over a document of
  fewer than \<open>2 ^ 53\<close> pages that starts with the invariant and returns ends with it, and then the marker is there exactly once, every
  reference stands before it, and only white space follows it. An attempt at a page beyond
  the last fragment keeps the invariant. Including a page puts its reference right before
  the last marker when there is one, and at the end otherwise.
\<close>

theorem manifest_order_invariant:
  assumes "manifest_inv w" "totalPages cfg < 2 ^ 53" "processPdfDocument cfg envs w = Some r"
  shows "(\<exists>w' m' idx. r = Inr w' \<and> readFile MAIN_TEX w' = Some m' \<and> manifest_inv w' \<and>
            sorted_wrt (<) (includeRefs m') \<and> distinct (includeRefs m') \<and>
            count_occ end_document m' = 1 \<and> last_occurrence m' end_document = Some idx \<and>
            includeRefs (take idx m') = includeRefs m' \<and> includeRefs (drop idx m') = [] \<and>
            list_all is_space (drop (idx + length end_document) m')) \<and>
         (readFile MAIN_TEX v = None \<longrightarrow> manifest_inv v) \<and>
         (manifest_inv v \<and> readFile MAIN_TEX v \<noteq> None \<and> lastPage v < p \<and> p \<le> totalPages cfg \<and>
          attemptOnce cfg e p v = (res, v') \<longrightarrow> manifest_inv v') \<and>
         updateMainTex p m =
           (case last_occurrence m end_document of
              None \<Rightarrow> m @ includeLine p
            | Some i \<Rightarrow> take i m @ includeLine p @ ''\<newline>'' @ drop i m) \<and>
         (marker_ok m \<longrightarrow>
            includeRefs (updateMainTex p m) = includeRefs m @ [p] \<and> marker_ok (updateMainTex p m)) \<and>
         (readFile MAIN_TEX v = Some m \<longrightarrow>
            (\<exists>v'. finalize v = Inr v' \<and>
               readFile MAIN_TEX v' =
                 Some (if str_includes m end_document then m
                       else m @ ''\<newline>\<newline>'' @ end_document @ ''\<newline>'')))"
proof -
  from run_manifest [OF assms(3,1,2)] obtain w' m' where f:
    "r = Inr w'" "readFile MAIN_TEX w' = Some m'" "manifest_inv w'"
    "str_includes m' end_document" "count_occ end_document m' = 1"
    by blast
  from f(4) obtain idx where idx: "last_occurrence m' end_document = Some idx"
    using last_occurrence_includes [of m' end_document] by auto
  have mi: "marker_ok m'" "sorted_wrt (<) (includeRefs m')"
    using f(2,3) by (simp_all add: manifest_inv_def)
  have sp: "list_all is_space (drop (idx + length end_document) m')"
    using mi(1) idx by (simp add: marker_ok_def)
  note rb = refs_before_marker [OF mi(1) idx]
  have a: "\<exists>w' m' idx. r = Inr w' \<and> readFile MAIN_TEX w' = Some m' \<and> manifest_inv w' \<and>
      sorted_wrt (<) (includeRefs m') \<and> distinct (includeRefs m') \<and>
      count_occ end_document m' = 1 \<and> last_occurrence m' end_document = Some idx \<and>
      includeRefs (take idx m') = includeRefs m' \<and> includeRefs (drop idx m') = [] \<and>
      list_all is_space (drop (idx + length end_document) m')"
    using f(1,2,3,5) mi(2) sorted_less_distinct [OF mi(2)] idx rb sp by blast
  have b: "readFile MAIN_TEX v = None \<longrightarrow> manifest_inv v"
    by (simp add: manifest_inv_def)
  have c: "manifest_inv v \<and> readFile MAIN_TEX v \<noteq> None \<and> lastPage v < p \<and> p \<le> totalPages cfg \<and>
      attemptOnce cfg e p v = (res, v') \<longrightarrow> manifest_inv v'"
  proof (intro impI, elim conjE)
    assume h: "manifest_inv v" "readFile MAIN_TEX v \<noteq> None" "lastPage v < p" "p \<le> totalPages cfg"
      "attemptOnce cfg e p v = (res, v')"
    from h(2) obtain mv where mv: "readFile MAIN_TEX v = Some mv" by auto
    have "1 \<le> p" using h(3) by simp
    from attemptOnce_manifest_inv [OF h(5) this h(4) mv h(1) h(3)] show "manifest_inv v'" .
  qed
  have d: "updateMainTex p m =
      (case last_occurrence m end_document of
         None \<Rightarrow> m @ includeLine p
       | Some i \<Rightarrow> take i m @ includeLine p @ ''\<newline>'' @ drop i m)"
    by (cases "last_occurrence m end_document")
       (simp_all add: updateMainTex_absent updateMainTex_present)
  have e: "marker_ok m \<longrightarrow>
      includeRefs (updateMainTex p m) = includeRefs m @ [p] \<and> marker_ok (updateMainTex p m)"
    using includeRefs_updateMainTex marker_ok_updateMainTex by blast
  have g: "readFile MAIN_TEX v = Some m \<longrightarrow>
      (\<exists>v'. finalize v = Inr v' \<and>
         readFile MAIN_TEX v' =
           Some (if str_includes m end_document then m
                 else m @ ''\<newline>\<newline>'' @ end_document @ ''\<newline>''))"
  proof
    assume "readFile MAIN_TEX v = Some m"
    from finalize_facts [OF this] obtain v' where
      "finalize v = Inr v'" "readFile MAIN_TEX v' = Some (closed_text m)" by blast
    then show "\<exists>v'. finalize v = Inr v' \<and>
         readFile MAIN_TEX v' =
           Some (if str_includes m end_document then m
                 else m @ ''\<newline>\<newline>'' @ end_document @ ''\<newline>'')"
      by (intro exI [of _ v']) (simp add: closed_text_def closing_def)
  qed
  from a b c d e g show ?thesis by (intro conjI)
qed

theorem manifest_order_invariant_witness:
  "\<exists>w' m'.
     processPdfDocument (demo_cfg 2)
       [demo_env (GenResult (Some ok_text)), demo_env (GenResult (Some ok_text))] small_world
       = Some (Inr w') \<and>
     readFile MAIN_TEX w' = Some m' \<and> includeRefs m' = [1, 2] \<and>
     sorted_wrt (<) (includeRefs m') \<and> count_occ end_document m' = 1"
proof -
  let ?run = "processPdfDocument (demo_cfg 2)
       [demo_env (GenResult (Some ok_text)), demo_env (GenResult (Some ok_text))] small_world"
  have ne: "?run \<noteq> None" by code_simp
  then obtain r where r: "?run = Some r" by auto
  have refs: "(case ?run of Some (Inr w) \<Rightarrow> map_option includeRefs (readFile MAIN_TEX w) = Some [1, 2]
      | _ \<Rightarrow> False)"
    by code_simp
  have tp: "totalPages (demo_cfg 2) < 2 ^ 53" by (simp add: demo_cfg_def)
  note t = manifest_order_invariant [OF manifest_inv_small tp r, THEN conjunct1]
  then obtain w' m' where w': "r = Inr w'" "readFile MAIN_TEX w' = Some m'"
    "sorted_wrt (<) (includeRefs m')" "count_occ end_document m' = 1"
    by blast
  have run: "?run = Some (Inr w')" using r w'(1) by simp
  from refs have "includeRefs m' = [1, 2]" unfolding run using w'(2) by simp
  with run w'(2,3,4) show ?thesis by blast
qed

text \<open>
  C7, as stated, fails: \<open>page1.tex\<close> exists and \<open>main.tex\<close> has no reference to page 1
  (the state after an interruption between the two writes). The run processes page 2
  and the master document then references page 2 only.
\<close>

theorem missing_reference_not_backfilled:
  "readFile (pageTexName 1) interrupted_world = Some ''one'' \<and>
   map_option includeRefs (readFile MAIN_TEX interrupted_world) = Some [] \<and>
   map_option (map_sum id (\<lambda>w. (map_option includeRefs (readFile MAIN_TEX w), events w)))
     (processPdfDocument (demo_cfg 2) [demo_env (GenResult (Some ok_text))] interrupted_world)
   = Some (Inr (Some [2], [Begin 2, Attempt 2 1, Convert 1, Convert 2, Recorded 2]))"
  by code_simp

text \<open>
  C7, amended. A fragment without a reference does not disturb the resume: every page with
  a fragment is at most the last page, which is what the resume computation returns. In a
  run over a document of fewer than \<open>2 ^ 53\<close> pages that starts with the invariant of
  the master document, the references at the end are those at the start and those of the
  pages recorded in this run, which are all beyond the last page processed before: a
  reference that was missing for an earlier page is still missing. Including a page adds
  the reference of this page and no other.
\<close>

theorem references_added_one_at_a_time:
  assumes "manifest_inv w" "readFile MAIN_TEX w = Some m" "totalPages cfg < 2 ^ 53"
    and "processPdfDocument cfg envs w = Some r"
  shows "(\<exists>w' m' evs. r = Inr w' \<and> readFile MAIN_TEX w' = Some m' \<and> events w' = events w @ evs \<and>
            set (includeRefs m') = set (includeRefs m) \<union> {q. Recorded q \<in> set evs} \<and>
            (\<forall>q. Recorded q \<in> set evs \<longrightarrow> lastPage w < q) \<and>
            (\<forall>q\<le>lastPage w. q \<in> set (includeRefs m') \<longleftrightarrow> q \<in> set (includeRefs m))) \<and>
         (\<forall>q. readFile (pageTexName q) w \<noteq> None \<longrightarrow> q \<le> lastPage w) \<and>
         (lastPage w < 2 ^ 53 \<longrightarrow> getLastProcessedPageByTex (readdir w) = Inr (enat (lastPage w))) \<and>
         (\<forall>p t. marker_ok t \<longrightarrow> includeRefs (updateMainTex p t) = includeRefs t @ [p])"
proof -
  from run_manifest [OF assms(4,1,3)] assms(2) obtain w' m' evs where f:
    "r = Inr w'" "readFile MAIN_TEX w' = Some m'" "events w' = events w @ evs"
    "set (includeRefs m') = set (includeRefs m) \<union> {q. Recorded q \<in> set evs}"
    by blast
  from run_events [OF assms(4,3)] obtain w2 evs2 where g:
    "r = Inr w2" "events w2 = events w @ evs2"
    "list_all (run_event (lastPage w) (totalPages cfg)) evs2"
    by blast
  have "evs2 = evs" using f(1,3) g(1,2) by simp
  then have rec: "\<forall>q. Recorded q \<in> set evs \<longrightarrow> lastPage w < q"
    using g(3) by (auto simp: list_all_iff)
  then have old: "\<forall>q\<le>lastPage w. q \<in> set (includeRefs m') \<longleftrightarrow> q \<in> set (includeRefs m)"
    unfolding f(4) by auto
  have a: "\<exists>w' m' evs. r = Inr w' \<and> readFile MAIN_TEX w' = Some m' \<and> events w' = events w @ evs \<and>
      set (includeRefs m') = set (includeRefs m) \<union> {q. Recorded q \<in> set evs} \<and>
      (\<forall>q. Recorded q \<in> set evs \<longrightarrow> lastPage w < q) \<and>
      (\<forall>q\<le>lastPage w. q \<in> set (includeRefs m') \<longleftrightarrow> q \<in> set (includeRefs m))"
    using f rec old by blast
  have b: "\<forall>q. readFile (pageTexName q) w \<noteq> None \<longrightarrow> q \<le> lastPage w"
    using fragment_le_lastPage by blast
  have c: "lastPage w < 2 ^ 53 \<longrightarrow> getLastProcessedPageByTex (readdir w) = Inr (enat (lastPage w))"
    using getLast_lastPage by blast
  have d: "\<forall>p t. marker_ok t \<longrightarrow> includeRefs (updateMainTex p t) = includeRefs t @ [p]"
    using includeRefs_updateMainTex by blast
  from a b c d show ?thesis by (intro conjI)
qed

theorem references_added_one_at_a_time_witness:
  "\<exists>w' m'.
     processPdfDocument (demo_cfg 2) [demo_env (GenResult (Some ok_text))] interrupted_world
       = Some (Inr w') \<and>
     readFile MAIN_TEX w' = Some m' \<and> 1 \<notin> set (includeRefs m') \<and> 1 \<le> lastPage interrupted_world"
proof -
  let ?run = "processPdfDocument (demo_cfg 2) [demo_env (GenResult (Some ok_text))] interrupted_world"
  have ne: "?run \<noteq> None" by code_simp
  then obtain r where r: "?run = Some r" by auto
  have m: "readFile MAIN_TEX interrupted_world = Some ''% pages\<newline>''"
    by (simp add: interrupted_world_def readFile_def MAIN_TEX_def)
  have pg: "readFile (pageTexName 1) interrupted_world \<noteq> None" by code_simp
  have tp: "totalPages (demo_cfg 2) < 2 ^ 53" by (simp add: demo_cfg_def)
  note t = references_added_one_at_a_time [OF manifest_inv_interrupted m tp r]
  from t have "\<forall>q. readFile (pageTexName q) interrupted_world \<noteq> None \<longrightarrow> q \<le> lastPage interrupted_world"
    by (rule conjunct2 [THEN conjunct1])
  with pg have l1: "1 \<le> lastPage interrupted_world" by blast
  from t [THEN conjunct1] obtain w' m' where w': "r = Inr w'" "readFile MAIN_TEX w' = Some m'"
    "\<forall>q\<le>lastPage interrupted_world. q \<in> set (includeRefs m') \<longleftrightarrow> q \<in> set (includeRefs ''% pages\<newline>'')"
    by blast
  from w'(3) have "\<forall>q\<le>lastPage interrupted_world. q \<in> set (includeRefs m') \<longleftrightarrow> q \<in> set ([]::nat list)"
    by (simp only: small_manifest_facts)
  with l1 have "1 \<notin> set (includeRefs m')" by auto
  with r w'(1,2) l1 show ?thesis by blast
qed

text \<open>
  C6. Two runs over the same document of fewer than \<open>2 ^ 53\<close> pages, the second one
  from the state the first one left; the first starts with the invariant of the master
  document and with a listing of distinct names. Take a page whose fragment exists after
  the first run. The second run does not begin it, makes no attempt at it and does not
  record it; its fragment is the same after the second run, and its name is listed once.
  Every page that the first run recorded has its fragment after the first run, and exactly
  one reference in the master document after the second run, in which no page is
  referenced twice.
\<close>

theorem second_run_does_not_repeat:
  assumes "manifest_inv w0" "distinct (readdir w0)" "totalPages cfg < 2 ^ 53"
    and "processPdfDocument cfg envs1 w0 = Some (Inr w1)"
    and "processPdfDocument cfg envs2 w1 = Some (Inr w2)"
  shows "\<exists>evs1 evs2 m2.
           events w1 = events w0 @ evs1 \<and> events w2 = events w1 @ evs2 \<and>
           readFile MAIN_TEX w2 = Some m2 \<and>
           distinct (readdir w2) \<and> distinct (includeRefs m2) \<and>
           (\<forall>q. readFile (pageTexName q) w1 \<noteq> None \<longrightarrow>
              Begin q \<notin> set evs2 \<and> (\<forall>k. Attempt q k \<notin> set evs2) \<and> Recorded q \<notin> set evs2 \<and>
              readFile (pageTexName q) w2 = readFile (pageTexName q) w1 \<and>
              count_list (readdir w2) (pageTexName q) = 1) \<and>
           (\<forall>q. Recorded q \<in> set evs1 \<longrightarrow>
              readFile (pageTexName q) w1 \<noteq> None \<and> count_list (includeRefs m2) q = 1)"
proof -
  from run_events [OF assms(4,3)] obtain evs1 where e1:
    "events w1 = events w0 @ evs1"
    "\<forall>q. Recorded q \<in> set evs1 \<longrightarrow> readFile (pageTexName q) w1 \<noteq> None"
    by auto
  from run_manifest [OF assms(4,1,3)] obtain m1 evs1' where r1:
    "readFile MAIN_TEX w1 = Some m1" "manifest_inv w1" "events w1 = events w0 @ evs1'"
    "\<forall>q. Recorded q \<in> set evs1' \<longrightarrow> q \<in> set (includeRefs m1)"
    by auto
  have same1: "evs1' = evs1" using e1(1) r1(3) by simp
  from run_events [OF assms(5,3)] obtain evs2 where e2:
    "events w2 = events w1 @ evs2"
    "list_all (run_event (lastPage w1) (totalPages cfg)) evs2"
    by auto
  from run_manifest [OF assms(5) r1(2) assms(3)] r1(1) obtain m2 where r2:
    "readFile MAIN_TEX w2 = Some m2" "manifest_inv w2"
    "prefix (includeRefs m1) (includeRefs m2)"
    "\<forall>q\<le>lastPage w1. readFile (pageTexName q) w2 = readFile (pageTexName q) w1"
    by auto
  have d1: "distinct (readdir w1)" using assms(4,2) by (rule run_distinct)
  have d2: "distinct (readdir w2)" using assms(5) d1 by (rule run_distinct)
  have "sorted_wrt (<) (includeRefs m2)" using r2(1,2) by (simp add: manifest_inv_def)
  then have dr: "distinct (includeRefs m2)" by (rule sorted_less_distinct)
  have a: "Begin q \<notin> set evs2 \<and> (\<forall>k. Attempt q k \<notin> set evs2) \<and> Recorded q \<notin> set evs2 \<and>
      readFile (pageTexName q) w2 = readFile (pageTexName q) w1 \<and>
      count_list (readdir w2) (pageTexName q) = 1"
    if "readFile (pageTexName q) w1 \<noteq> None" for q
  proof -
    from that have le: "q \<le> lastPage w1" by (rule fragment_le_lastPage)
    have ev: "\<not> run_event (lastPage w1) (totalPages cfg) (Begin q)"
      "\<not> run_event (lastPage w1) (totalPages cfg) (Attempt q k)"
      "\<not> run_event (lastPage w1) (totalPages cfg) (Recorded q)" for k
      using le by simp_all
    have n1: "Begin q \<notin> set evs2" using e2(2) ev(1) by (auto simp: list_all_iff)
    have n2: "\<forall>k. Attempt q k \<notin> set evs2" using e2(2) ev(2) by (auto simp: list_all_iff)
    have n3: "Recorded q \<notin> set evs2" using e2(2) ev(3) by (auto simp: list_all_iff)
    have same: "readFile (pageTexName q) w2 = readFile (pageTexName q) w1" using r2(4) le by simp
    with that have "pageTexName q \<in> set (readdir w2)" by (intro readFile_in_readdir) simp
    with d2 have "count_list (readdir w2) (pageTexName q) = 1" by (rule count_list_distinct)
    with n1 n2 n3 same show ?thesis by simp
  qed
  have b: "readFile (pageTexName q) w1 \<noteq> None \<and> count_list (includeRefs m2) q = 1"
    if "Recorded q \<in> set evs1" for q
  proof -
    from that r1(4) same1 have "q \<in> set (includeRefs m1)" by simp
    with r2(3) have "q \<in> set (includeRefs m2)" using set_mono_prefix by blast
    with dr have "count_list (includeRefs m2) q = 1" by (rule count_list_distinct)
    with that e1(2) show ?thesis by simp
  qed
  from e1(1) e2(1) r2(1) d2 dr a b show ?thesis
    by (intro exI [of _ evs1] exI [of _ evs2] exI [of _ m2]) simp
qed

theorem second_run_does_not_repeat_witness:
  "\<exists>w2 evs2.
     processPdfDocument (demo_cfg 2)
       [demo_env (GenResult (Some ok_text)), demo_env (GenThrows ''Error: fetch failed''),
        demo_env (GenThrows ''Error: fetch failed''), demo_env (GenThrows ''Error: fetch failed'')]
       small_world = Some (Inr after_first_run) \<and>
     processPdfDocument (demo_cfg 2) [demo_env (GenResult (Some ok_text))] after_first_run
       = Some (Inr w2) \<and>
     readFile (pageTexName 1) after_first_run = Some ''TEXT'' \<and>
     readFile (pageTexName 1) w2 = Some ''TEXT'' \<and>
     events w2 = events after_first_run @ evs2 \<and>
     Begin 1 \<notin> set evs2 \<and> Recorded 1 \<notin> set evs2 \<and>
     count_list (readdir w2) (pageTexName 1) = 1"
proof -
  let ?run1 = "processPdfDocument (demo_cfg 2)
       [demo_env (GenResult (Some ok_text)), demo_env (GenThrows ''Error: fetch failed''),
        demo_env (GenThrows ''Error: fetch failed''), demo_env (GenThrows ''Error: fetch failed'')]
       small_world"
  let ?run2 = "processPdfDocument (demo_cfg 2) [demo_env (GenResult (Some ok_text))] after_first_run"
  have "?run1 \<noteq> None" by code_simp
  then obtain w1 where w1: "?run1 = Some (Inr w1)" using run_returns by blast
  then have r1: "?run1 = Some (Inr after_first_run)" by (simp add: after_first_run_def)
  have "?run2 \<noteq> None" by code_simp
  then obtain w2 where r2: "?run2 = Some (Inr w2)" using run_returns by blast
  have pg: "readFile (pageTexName 1) after_first_run = Some ''TEXT''" by code_simp
  have d0: "distinct (readdir small_world)" by (simp add: small_world_def readdir_def)
  have tp: "totalPages (demo_cfg 2) < 2 ^ 53" by (simp add: demo_cfg_def)
  from second_run_does_not_repeat [OF manifest_inv_small d0 tp r1 r2] obtain evs2 where t:
    "events w2 = events after_first_run @ evs2"
    "\<forall>q. readFile (pageTexName q) after_first_run \<noteq> None \<longrightarrow>
       Begin q \<notin> set evs2 \<and> (\<forall>k. Attempt q k \<notin> set evs2) \<and> Recorded q \<notin> set evs2 \<and>
       readFile (pageTexName q) w2 = readFile (pageTexName q) after_first_run \<and>
       count_list (readdir w2) (pageTexName q) = 1"
    by blast
  from t(2) pg have "Begin 1 \<notin> set evs2" "Recorded 1 \<notin> set evs2"
    "readFile (pageTexName 1) w2 = Some ''TEXT''" "count_list (readdir w2) (pageTexName 1) = 1"
    by auto
  with r1 r2 pg t(1) show ?thesis by blast
qed

end
